theory Spec2Isabelle
  imports Complex_Main
begin

section \<open>Values of the host language\<close>

text \<open>
  The helper is TypeScript; its arguments and table rows are JavaScript values.
  Numbers are restricted to integers (no NaN, no fractions); that is all the
  enumeration code of \<^verbatim>\<open>src/helpers/chain.ts\<close> is called with. \<open>JObject\<close> is any
  object or function, its contents left out.
\<close>

datatype jsval = JUndefined | JNull | JBool bool | JNum int | JStr string | JObject

text \<open>JavaScript truthiness, as used by \<^verbatim>\<open>x ? a : b\<close>, \<^verbatim>\<open>!x\<close> and \<^verbatim>\<open>x && y\<close>.\<close>

fun truthy :: "jsval \<Rightarrow> bool" where
  "truthy JUndefined = False"
| "truthy JNull = False"
| "truthy (JBool b) = b"
| "truthy (JNum n) = (n \<noteq> 0)"
| "truthy (JStr s) = (s \<noteq> [])"
| "truthy JObject = True"

datatype error =
    RpcError string
  | Timeout
  | TypeError
  | GetActionsFailed
  | CheckMoreError string

subsection \<open>BigNumber\<close>

text \<open>
  bignumber.js is a dependency, not code of the repository. What the scan uses
  of it is modelled here: the constructor on the numbers that a double holds
  exactly (absolute value below 2^53) and on plain decimal integer literals
  (an optional minus sign and digits), exact \<^verbatim>\<open>minus\<close>/\<^verbatim>\<open>plus\<close>/\<^verbatim>\<open>dividedBy(2)\<close>,
  and \<^verbatim>\<open>decimalPlaces(0)\<close> under the library's default rounding mode
  ROUND_HALF_UP (ties away from zero); \<^verbatim>\<open>chain.ts\<close> never reconfigures the
  library. \<open>None\<close> stands for every argument outside that fragment: the model
  says nothing about it. (The library has a value for some of them: a larger
  number goes through the decimal string of the double, and a literal may
  carry a plus sign, an exponent or a radix prefix.)
\<close>

definition digit_of :: "char \<Rightarrow> nat option" where
  "digit_of c = map_of
     [(CHR ''0'', 0), (CHR ''1'', 1), (CHR ''2'', 2), (CHR ''3'', 3), (CHR ''4'', 4),
      (CHR ''5'', 5), (CHR ''6'', 6), (CHR ''7'', 7), (CHR ''8'', 8), (CHR ''9'', 9)] c"

fun digits_acc :: "nat \<Rightarrow> string \<Rightarrow> nat option" where
  "digits_acc acc [] = Some acc"
| "digits_acc acc (c # cs) =
     (case digit_of c of None \<Rightarrow> None | Some d \<Rightarrow> digits_acc (10 * acc + d) cs)"

definition digits :: "string \<Rightarrow> nat option" where
  "digits s = (if s = [] then None else digits_acc 0 s)"

fun BigNumber :: "jsval \<Rightarrow> int option" where
  "BigNumber (JNum n) = (if \<bar>n\<bar> < 9007199254740992 then Some n else None)"
| "BigNumber (JStr s) =
     (case s of
        [] \<Rightarrow> None
      | c # cs \<Rightarrow>
          if c = CHR ''-'' then map_option (\<lambda>n. - int n) (digits cs)
          else map_option int (digits s))"
| "BigNumber _ = None"

definition decimalPlaces0 :: "rat \<Rightarrow> int" where
  "decimalPlaces0 x = (if 0 \<le> x then \<lfloor>x + 1 / 2\<rfloor> else - \<lfloor>- x + 1 / 2\<rfloor>)"

text \<open>\<^verbatim>\<open>_u.minus(_l).dividedBy(2).decimalPlaces(0).plus(_l)\<close>\<close>

definition midpoint :: "int \<Rightarrow> int \<Rightarrow> int" where
  "midpoint l u = decimalPlaces0 (of_int (u - l) / 2) + l"

section \<open>getTableAll: the bounds\<close>

text \<open>
  \<^verbatim>\<open>const lower = lowerNum ? new BigNumber(lowerNum) : new BigNumber(0);\<close>
  \<^verbatim>\<open>const upper = upperNum && upperNum !== -1 ? new BigNumber(upperNum)
                                              : new BigNumber('18446744073709551615');\<close>
  The comparison \<^verbatim>\<open>!==\<close> is strict: a string is never equal to the number -1.
\<close>

definition lower_of :: "jsval \<Rightarrow> int option" where
  "lower_of lowerNum = (if truthy lowerNum then BigNumber lowerNum else BigNumber (JNum 0))"

definition upper_of :: "jsval \<Rightarrow> int option" where
  "upper_of upperNum =
     (if truthy upperNum \<and> upperNum \<noteq> JNum (- 1) then BigNumber upperNum
      else BigNumber (JStr ''18446744073709551615''))"

section \<open>The remote table reader\<close>

text \<open>
  One answer of \<^verbatim>\<open>this._eos.getTableRows\<close>: the promise rejects, or resolves to a
  result object (possibly falsy) with an optional \<^verbatim>\<open>rows\<close> array and the \<^verbatim>\<open>more\<close> flag (field \<open>has_more\<close>:
  \<open>more\<close> is reserved in records).
\<close>

record 'r table_result =
  rows :: "'r list option"
  has_more :: bool

datatype 'a response = Rejected error | Resolved 'a

section \<open>Array primitives\<close>

text \<open>\<^verbatim>\<open>xs.findIndex(P)\<close>: the first index that satisfies \<open>P\<close>, or -1.\<close>

fun findIndex :: "('a \<Rightarrow> bool) \<Rightarrow> 'a list \<Rightarrow> int" where
  "findIndex P [] = - 1"
| "findIndex P (x # xs) =
     (if P x then 0 else (let i = findIndex P xs in if i < 0 then - 1 else i + 1))"

text \<open>
  The array after \<^verbatim>\<open>xs.splice(start, 1)\<close>: a negative start counts from the end
  (clamped at 0), a start beyond the end removes nothing.
\<close>

definition splice1 :: "int \<Rightarrow> 'a list \<Rightarrow> 'a list" where
  "splice1 start xs =
     (let n = int (length xs);
          k = (if start < 0 then max (n + start) 0 else min start n)
      in take (nat k) xs @ drop (nat k + 1) xs)"

section \<open>getTableAll: the scan\<close>

text \<open>
  The closure state of one call: the accumulator \<^verbatim>\<open>ret\<close>, the array \<^verbatim>\<open>pool\<close> of
  promises, and what the model needs to replay the asynchronous part: the
  requests that have not settled yet with the bounds their handlers closed
  over, the next promise identity, and the rejections of pool promises (each
  \<^verbatim>\<open>_promise\<close> is only stored in \<^verbatim>\<open>pool\<close>; nothing awaits it or attaches a handler).
\<close>

type_synonym promise = nat

record 'r scan =
  ret :: "'r list"
  pool :: "promise list"
  inflight :: "(promise \<times> int \<times> int) list"
  fresh :: promise
  unhandled :: "error list"

definition scan0 :: "'r scan" where
  "scan0 = \<lparr>ret = [], pool = [], inflight = [], fresh = 0, unhandled = []\<rparr>"

text \<open>
  \<^verbatim>\<open>Require(_l, _u)\<close>: nothing for \<^verbatim>\<open>_l.gte(_u)\<close>; otherwise the request is sent
  and its promise pushed on the pool.
\<close>

definition Require :: "int \<Rightarrow> int \<Rightarrow> 'r scan \<Rightarrow> 'r scan" where
  "Require l u st =
     (if l \<ge> u then st
      else st\<lparr>pool := pool st @ [fresh st],
              inflight := inflight st @ [(fresh st, l, u)],
              fresh := fresh st + 1\<rparr>)"

text \<open>The \<^verbatim>\<open>.then\<close> handler of the request for \<open>[l, u]\<close> whose pool promise is \<open>p\<close>.\<close>

definition on_fulfilled ::
  "promise \<Rightarrow> int \<Rightarrow> int \<Rightarrow> 'r table_result option \<Rightarrow> 'r scan \<Rightarrow> 'r scan" where
  "on_fulfilled p l u result st =
     (let st1 = st\<lparr>pool := splice1 (findIndex (\<lambda>v. v = p) (pool st)) (pool st)\<rparr>
      in case result of
           None \<Rightarrow> st1
         | Some res \<Rightarrow>
             if \<not> has_more res then
               (case rows res of None \<Rightarrow> st1 | Some rs \<Rightarrow> st1\<lparr>ret := ret st1 @ rs\<rparr>)
             else
               (let mid = midpoint l u
                in Require mid u (Require l (mid - 1) st1)))"

text \<open>
  The \<^verbatim>\<open>.catch\<close> handler. \<^verbatim>\<open>pool.find(...)\<close> yields the promise object itself (or
  \<^verbatim>\<open>undefined\<close>), not an index; \<^verbatim>\<open>splice\<close> converts its first argument to an
  integer, and both convert to 0. So the entry removed is the first of the
  pool. The rethrown error rejects \<^verbatim>\<open>_promise\<close>.
\<close>

definition on_rejected :: "promise \<Rightarrow> error \<Rightarrow> 'r scan \<Rightarrow> 'r scan" where
  "on_rejected p err st =
     st\<lparr>pool := splice1 0 (pool st), unhandled := unhandled st @ [err]\<rparr>"

text \<open>The \<open>k\<close>-th outstanding request settles with the remote's answer for its bounds.\<close>

definition settle ::
  "(int \<Rightarrow> int \<Rightarrow> 'r table_result option response) \<Rightarrow> nat \<Rightarrow> 'r scan \<Rightarrow> 'r scan" where
  "settle remote k st =
     (case inflight st ! k of
        (p, l, u) \<Rightarrow>
          (let st1 = st\<lparr>inflight := take k (inflight st) @ drop (k + 1) (inflight st)\<rparr>
           in case remote l u of
                Rejected err \<Rightarrow> on_rejected p err st1
              | Resolved result \<Rightarrow> on_fulfilled p l u result st1))"

definition weight :: "(promise \<times> int \<times> int) \<Rightarrow> nat" where
  "weight q = (case q of (p, l, u) \<Rightarrow> 2 * nat (u - l) + 1)"

definition outstanding :: "'r scan \<Rightarrow> nat" where
  "outstanding st = sum_list (map weight (inflight st))"

text \<open>
  The asynchronous part: while requests are outstanding, one of them settles.
  Which one is the environment's choice, given by \<open>sched\<close>.
\<close>

function run ::
  "(int \<Rightarrow> int \<Rightarrow> 'r table_result option response) \<Rightarrow> ('r scan \<Rightarrow> nat) \<Rightarrow> 'r scan \<Rightarrow> 'r scan" where
  "run remote sched st =
     (if inflight st = [] then st
      else run remote sched (settle remote (sched st mod length (inflight st)) st))"
  by pat_completeness auto

lemma midpoint_nonneg: "l \<le> u \<Longrightarrow> midpoint l u = l + (u - l + 1) div 2"
proof -
  assume "l \<le> u"
  then have nn: "(0::rat) \<le> of_int (u - l) / 2" by simp
  have "(of_int (u - l) / 2 + 1 / 2 :: rat) = of_int (u - l + 1) / of_int 2"
    by (simp add: add_divide_distrib)
  then have "\<lfloor>(of_int (u - l) / 2 + 1 / 2 :: rat)\<rfloor> = (u - l + 1) div 2"
    by (simp only: floor_divide_of_int_eq)
  with nn show ?thesis by (simp add: midpoint_def decimalPlaces0_def)
qed

lemma midpoint_neg: "u < l \<Longrightarrow> midpoint l u = l - (l - u + 1) div 2"
proof -
  assume "u < l"
  then have neg: "\<not> (0::rat) \<le> of_int (u - l) / 2" by simp
  have "(- (of_int (u - l) / 2) + 1 / 2 :: rat) = of_int (l - u + 1) / of_int 2"
    by (simp add: add_divide_distrib diff_divide_distrib)
  then have "\<lfloor>(- (of_int (u - l) / 2) + 1 / 2 :: rat)\<rfloor> = (l - u + 1) div 2"
    by (simp only: floor_divide_of_int_eq)
  with neg show ?thesis by (simp add: midpoint_def decimalPlaces0_def)
qed

lemma outstanding_Require:
  "outstanding (Require l u st) = outstanding st + (if l \<ge> u then 0 else 2 * nat (u - l) + 1)"
  by (simp add: Require_def outstanding_def weight_def)

lemma outstanding_halves:
  "outstanding (Require (midpoint l u) u (Require l (midpoint l u - 1) st))
     < outstanding st + 2 * nat (u - l) + 1"
proof (cases "l \<le> u")
  case True
  then show ?thesis
    by (simp add: outstanding_Require midpoint_nonneg) linarith
next
  case False
  then show ?thesis
    by (simp add: outstanding_Require midpoint_neg) linarith
qed

lemma outstanding_on_fulfilled:
  "outstanding (on_fulfilled p l u result st) < outstanding st + 2 * nat (u - l) + 1"
proof -
  let ?st1 = "st\<lparr>pool := splice1 (findIndex (\<lambda>v. v = p) (pool st)) (pool st)\<rparr>"
  have eq: "outstanding ?st1 = outstanding st" by (simp add: outstanding_def)
  show ?thesis
    using outstanding_halves [of l u ?st1]
    by (simp add: on_fulfilled_def Let_def eq outstanding_def split: option.splits)
qed

lemma sum_list_remove_nth:
  "k < length xs \<Longrightarrow> sum_list (map f (take k xs @ drop (k + 1) xs)) + f (xs ! k) = sum_list (map (f :: 'a \<Rightarrow> nat) xs)"
proof -
  assume "k < length xs"
  then have "xs = take k xs @ xs ! k # drop (k + 1) xs"
    by (simp add: id_take_nth_drop)
  then have "sum_list (map f xs) = sum_list (map f (take k xs @ xs ! k # drop (k + 1) xs))"
    by simp
  then show ?thesis by simp
qed

lemma settle_decreases:
  assumes "k < length (inflight st)"
  shows "outstanding (settle remote k st) < outstanding st"
proof -
  obtain p l u where q: "inflight st ! k = (p, l, u)" by (cases "inflight st ! k") auto
  let ?st1 = "st\<lparr>inflight := take k (inflight st) @ drop (k + 1) (inflight st)\<rparr>"
  have rem: "outstanding ?st1 + (2 * nat (u - l) + 1) = outstanding st"
    using sum_list_remove_nth [OF assms, of weight] q
    by (simp add: outstanding_def weight_def)
  show ?thesis
  proof (cases "remote l u")
    case (Rejected err)
    have "outstanding (on_rejected p err ?st1) = outstanding ?st1"
      by (simp add: on_rejected_def outstanding_def)
    with rem Rejected q show ?thesis by (simp add: settle_def Let_def)
  next
    case (Resolved result)
    with rem q outstanding_on_fulfilled [of p l u result ?st1] show ?thesis
      by (simp add: settle_def Let_def)
  qed
qed

termination run
  by (relation "measure (\<lambda>(remote, sched, st). outstanding st)") (simp_all add: settle_decreases)

declare run.simps [simp del]

text \<open>
  The body of \<^verbatim>\<open>getTableAll\<close> after the bounds, on the BigNumber values \<open>lower\<close>,
  \<open>upper\<close> and \<open>hint\<close>. The polling loop \<^verbatim>\<open>while (pool.length > 0) await forMs(50)\<close>
  looks at the pool between handlers only, and every handler leaves the pool
  with one entry for each outstanding request (\<open>run_balance\<close> below): the loop
  ends when the last request has settled. With an entry left and nothing
  outstanding it would never end (\<open>None\<close>; \<open>getTableAll_returns\<close> shows that this
  does not happen). The only value the call resolves to is \<^verbatim>\<open>ret\<close>.
\<close>

definition getTableAll ::
  "(int \<Rightarrow> int \<Rightarrow> 'r table_result option response) \<Rightarrow> ('r scan \<Rightarrow> nat) \<Rightarrow>
     int \<Rightarrow> int \<Rightarrow> int list \<Rightarrow> (error + 'r list) option" where
  "getTableAll remote sched lower upper hint =
     (let st0 = (if hint = [] then Require lower upper scan0
                 else snd (foldl (\<lambda>(l, st) m. (m, Require l m st)) (lower, scan0) (hint @ [upper])));
          st = run remote sched st0
      in if pool st = [] then Some (Inr (ret st)) else None)"

subsection \<open>The requests of a scan, depth first\<close>

text \<open>
  The rows that the request for \<open>[l, u]\<close> and all the requests it leads to push
  on \<^verbatim>\<open>ret\<close>, written as a recursion over the bisection: nothing for a rejected
  request or a falsy result, the rows of an untruncated answer, and otherwise
  the rows of the two halves, each only if \<^verbatim>\<open>Require\<close> sends it. \<open>collect_hints\<close>
  is the same for the ranges between consecutive hints. The scan returns these
  rows in the order in which the requests settle (\<open>getTableAll_collect\<close> below).
\<close>

function collect :: "(int \<Rightarrow> int \<Rightarrow> 'r table_result option response) \<Rightarrow> int \<Rightarrow> int \<Rightarrow> 'r list" where
  "collect remote l u =
     (case remote l u of
        Rejected err \<Rightarrow> []
      | Resolved None \<Rightarrow> []
      | Resolved (Some res) \<Rightarrow>
          if \<not> has_more res then (case rows res of None \<Rightarrow> [] | Some rs \<Rightarrow> rs)
          else (if l \<ge> midpoint l u - 1 then [] else collect remote l (midpoint l u - 1))
             @ (if midpoint l u \<ge> u then [] else collect remote (midpoint l u) u))"
  by pat_completeness auto

lemma left_half_smaller:
  assumes "\<not> midpoint l u - 1 \<le> l"
  shows "l < u \<and> midpoint l u - 1 < u"
proof (cases "l \<le> u")
  case True
  with assms have "\<not> l + (u - l + 1) div 2 - 1 \<le> l" by (simp add: midpoint_nonneg)
  then have "l < u \<and> l + (u - l + 1) div 2 - 1 < u" by linarith
  with True show ?thesis by (simp add: midpoint_nonneg)
next
  case False
  with assms have "\<not> l - (l - u + 1) div 2 - 1 \<le> l" by (simp add: midpoint_neg)
  with False have False by linarith
  then show ?thesis ..
qed

lemma right_half_smaller:
  assumes "\<not> u \<le> midpoint l u"
  shows "l < u \<and> l < midpoint l u"
proof (cases "l \<le> u")
  case True
  with assms have "\<not> u \<le> l + (u - l + 1) div 2" by (simp add: midpoint_nonneg)
  then have "l < u \<and> l < l + (u - l + 1) div 2" by linarith
  with True show ?thesis by (simp add: midpoint_nonneg)
next
  case False
  with assms have "\<not> u \<le> l - (l - u + 1) div 2" by (simp add: midpoint_neg)
  with False have False by linarith
  then show ?thesis ..
qed

termination collect
proof (relation "measure (\<lambda>(remote, l, u). nat (u - l))")
  show "wf (measure (\<lambda>(remote :: int \<Rightarrow> int \<Rightarrow> 'r table_result option response, l, u). nat (u - l)))"
    by simp
next
  fix remote :: "int \<Rightarrow> int \<Rightarrow> 'r table_result option response" and l u :: int
  assume "\<not> midpoint l u - 1 \<le> l"
  from left_half_smaller [OF this]
  show "((remote, l, midpoint l u - 1), remote, l, u) \<in> measure (\<lambda>(remote, l, u). nat (u - l))"
    by simp
next
  fix remote :: "int \<Rightarrow> int \<Rightarrow> 'r table_result option response" and l u :: int
  assume "\<not> u \<le> midpoint l u"
  from right_half_smaller [OF this]
  show "((remote, midpoint l u, u), remote, l, u) \<in> measure (\<lambda>(remote, l, u). nat (u - l))"
    by simp
qed

declare collect.simps [simp del]

fun collect_hints :: "(int \<Rightarrow> int \<Rightarrow> 'r table_result option response) \<Rightarrow> int \<Rightarrow> int list \<Rightarrow> 'r list" where
  "collect_hints remote l [] = []"
| "collect_hints remote l (m # ms) =
     (if l \<ge> m then [] else collect remote l m) @ collect_hints remote m ms"

section \<open>A backing table with a page cap\<close>

text \<open>
  Modelled from the spec: RemoteRangeReader, the remote end of
  \<^verbatim>\<open>getTableRows\<close>, which is not code of the repository. The table is a list of
  rows in key order; a query selects the rows whose key lies between the
  bounds, answers them all when they fit in one page of \<open>cap\<close> rows, and
  otherwise answers the first \<open>cap\<close> of them with \<^verbatim>\<open>more\<close> set. Whether the remote
  takes the upper bound as inclusive is a parameter: the spec writes the ranges
  of a bisection as closed intervals and calls a range half-open elsewhere.
\<close>

definition in_range :: "bool \<Rightarrow> int \<Rightarrow> int \<Rightarrow> int \<Rightarrow> bool" where
  "in_range inclusive l u k = (l \<le> k \<and> (if inclusive then k \<le> u else k < u))"

definition fetchRange ::
  "bool \<Rightarrow> nat \<Rightarrow> ('r \<Rightarrow> int) \<Rightarrow> 'r list \<Rightarrow> int \<Rightarrow> int \<Rightarrow> 'r table_result option response" where
  "fetchRange inclusive cap key tbl l u =
     (let hit = filter (\<lambda>r. in_range inclusive l u (key r)) tbl
      in Resolved (Some \<lparr>rows = Some (take cap hit), has_more = cap < length hit\<rparr>))"

text \<open>A schedule: the newest outstanding request settles first.\<close>

definition lifo :: "'r scan \<Rightarrow> nat" where
  "lifo st = length (inflight st) - 1"

text \<open>
  A scan of \<open>[0, 10]\<close> with the hint 5 in which the request of the upper
  sub-range is rejected, and its state when both requests have been sent.
\<close>

definition upper_half_fails :: "int \<Rightarrow> int \<Rightarrow> int table_result option response" where
  "upper_half_fails l u =
     (if l = 5 then Rejected (RpcError ''connection reset'')
      else Resolved (Some \<lparr>rows = Some [1, 2], has_more = False\<rparr>))"

definition two_requests :: "int scan" where
  "two_requests = Require 5 10 (Require 0 5 scan0)"

section \<open>getActions\<close>

record action =
  account_action_seq :: int
  action_trace :: string

text \<open>
  What \<^verbatim>\<open>await timeoutPromise(fetchTimeout, this._eos.getActions(...))\<close> comes to
  for the \<open>t\<close>-th request of a call, for \<open>pos\<close> and \<open>offset\<close>: it rejects, with
  \<open>Timeout\<close> when the time is up or with the error of the request when that
  fails first, or it resolves; \<open>None\<close> is a response that is falsy or has no
  \<^verbatim>\<open>actions\<close> field. (\<^verbatim>\<open>timeoutPromise\<close> is a helper of \<^verbatim>\<open>utils/wait\<close>; it is taken to
  settle as the request does unless the time is up first.)
\<close>

type_synonym seq_remote = "nat \<Rightarrow> int \<Rightarrow> int \<Rightarrow> action list option response"

text \<open>
  The \<^verbatim>\<open>while (true)\<close> loop of \<^verbatim>\<open>getActions\<close>, with the variables \<^verbatim>\<open>pos\<close> and
  \<^verbatim>\<open>actions\<close>; \<open>None\<close> is a loop that never ends.
\<close>

partial_function (option) getActions_loop ::
  "seq_remote \<Rightarrow> nat \<Rightarrow> int \<Rightarrow> int \<Rightarrow> action list \<Rightarrow> (error + action list) option" where
  "getActions_loop remote t pos endPos actions =
     (case remote t pos (endPos - pos) of
        Rejected ex \<Rightarrow> getActions_loop remote (t + 1) pos endPos actions
      | Resolved None \<Rightarrow> Some (Inl GetActionsFailed)
      | Resolved (Some acts) \<Rightarrow>
          (let maxActionInd = (if acts = [] then pos - 1 else account_action_seq (last acts))
           in if maxActionInd < pos then Some (Inr actions)
              else if maxActionInd \<ge> endPos then Some (Inr (actions @ acts))
              else getActions_loop remote (t + 1) (maxActionInd + 1) endPos (actions @ acts)))"

declare getActions_loop.simps [code]

definition getActions :: "seq_remote \<Rightarrow> int \<Rightarrow> int \<Rightarrow> (error + action list) option" where
  "getActions remote startPos offset = getActions_loop remote 0 startPos (startPos + offset) []"

text \<open>
  Modelled from the spec: RemoteSequenceReader, the remote end of
  \<^verbatim>\<open>getActions\<close>, which is not code of the repository. The log is a list of
  actions in ascending sequence order; a request for \<open>pos\<close> and \<open>offset\<close> is
  answered from the actions numbered \<open>pos\<close> to \<open>pos + offset\<close>, at most \<open>cap\<close> of
  them (a short read). The requests numbered in \<open>down\<close> time out instead.
\<close>

definition window :: "action list \<Rightarrow> int \<Rightarrow> int \<Rightarrow> action list" where
  "window entries pos offset =
     filter (\<lambda>a. pos \<le> account_action_seq a \<and> account_action_seq a \<le> pos + offset) entries"

definition fetchSequenceWindow :: "nat set \<Rightarrow> nat \<Rightarrow> action list \<Rightarrow> seq_remote" where
  "fetchSequenceWindow down cap entries t pos offset =
     (if t \<in> down then Rejected Timeout
      else Resolved (Some (take cap (window entries pos offset))))"

section \<open>getAllActionsBatch\<close>

text \<open>
  The state of the \<^verbatim>\<open>for (let i = 0; ; i++)\<close> loop: \<^verbatim>\<open>i\<close>, \<^verbatim>\<open>ranges\<close>, the
  positions \<^verbatim>\<open>req\<close> has been called with so far, the calls of \<^verbatim>\<open>cbReceive\<close> made
  so far (each with the start position of the page it got), and whether the
  loop was left by \<^verbatim>\<open>break\<close>.
\<close>

record 'a batch =
  i :: nat
  ranges :: "int list"
  requested :: "int list"
  delivered :: "(int \<times> 'a list) list"
  finished :: bool

definition batch0 :: "'a batch" where
  "batch0 = \<lparr>i = 0, ranges = [], requested = [], delivered = [], finished = False\<rparr>"

text \<open>\<^verbatim>\<open>i % concurrent === 0\<close>; the remainder by 0 is NaN.\<close>

definition rem_is_zero :: "nat \<Rightarrow> int \<Rightarrow> bool" where
  "rem_is_zero n concurrent = (concurrent \<noteq> 0 \<and> int n mod \<bar>concurrent\<bar> = 0)"

text \<open>The callback of \<^verbatim>\<open>reduce\<close>: the accumulator \<^verbatim>\<open>full\<close>, with the calls of \<^verbatim>\<open>cbReceive\<close>.\<close>

definition receive ::
  "int \<Rightarrow> bool \<times> (int \<times> 'a list) list \<Rightarrow> int \<times> 'a list \<Rightarrow> bool \<times> (int \<times> 'a list) list" where
  "receive count acc page =
     (case acc of (full, out) \<Rightarrow>
        (full \<and> int (length (snd page)) \<ge> count, if full then out @ [page] else out))"

text \<open>
  One pass of the loop body. \<open>req pos\<close> is what \<^verbatim>\<open>req(pos)\<close> resolves to: the
  rows of \<^verbatim>\<open>getActions(account_name, pos, count - 1)\<close>, retried until it returns.
\<close>

definition pass :: "(int \<Rightarrow> 'a list) \<Rightarrow> int \<Rightarrow> int \<Rightarrow> int \<Rightarrow> 'a batch \<Rightarrow> 'a batch" where
  "pass req startPos count concurrent st =
     (let ranges1 = ranges st @ [startPos + int (i st) * count]
      in if rem_is_zero (i st) concurrent then
           (let results = map (\<lambda>pos. (pos, req pos)) ranges1;
                nonEmptyResults = filter (\<lambda>page. snd page \<noteq> []) results;
                st1 = st\<lparr>requested := requested st @ ranges1\<rparr>
            in if nonEmptyResults = [] then st1\<lparr>ranges := ranges1, finished := True\<rparr>
               else
                 (case foldl (receive count) (True, delivered st) nonEmptyResults of
                    (allFull, out) \<Rightarrow>
                      if \<not> allFull then st1\<lparr>ranges := ranges1, delivered := out, finished := True\<rparr>
                      else st1\<lparr>i := i st + 1, ranges := [], delivered := out\<rparr>))
         else st\<lparr>i := i st + 1, ranges := ranges1\<rparr>)"

text \<open>The first \<open>n\<close> passes of the loop (fewer when it is left earlier).\<close>

fun passes :: "nat \<Rightarrow> (int \<Rightarrow> 'a list) \<Rightarrow> int \<Rightarrow> int \<Rightarrow> int \<Rightarrow> 'a batch \<Rightarrow> 'a batch" where
  "passes 0 req startPos count concurrent st = st"
| "passes (Suc n) req startPos count concurrent st =
     (if finished st then st
      else passes n req startPos count concurrent (pass req startPos count concurrent st))"

text \<open>
  \<^verbatim>\<open>getAllActionsBatch\<close> observed for \<open>n\<close> passes: the positions requested, the
  calls of \<^verbatim>\<open>cbReceive\<close> made, and the value returned if the call has returned
  by then (\<^verbatim>\<open>false\<close> at once without a callback).
\<close>

definition getAllActionsBatch ::
  "nat \<Rightarrow> (int \<Rightarrow> 'a list) \<Rightarrow> bool \<Rightarrow> int \<Rightarrow> int \<Rightarrow> int \<Rightarrow>
     int list \<times> (int \<times> 'a list) list \<times> bool option" where
  "getAllActionsBatch n req cbReceive startPos count concurrent =
     (if \<not> cbReceive then ([], [], Some False)
      else (let st = passes n req startPos count concurrent batch0
            in (requested st, delivered st, if finished st then Some True else None)))"

section \<open>checkTableMore\<close>

text \<open>
  A table row is a JSON object: its own fields in order. \<^verbatim>\<open>row[k]\<close> reads an own
  field; for a name the row does not own it finds what every object inherits
  from \<^verbatim>\<open>Object.prototype\<close> (a function or an object), and yields \<^verbatim>\<open>undefined\<close>
  for any other name.
\<close>

type_synonym row = "(string \<times> jsval) list"

definition object_prototype :: "string list" where
  "object_prototype =
     [''constructor'', ''hasOwnProperty'', ''isPrototypeOf'', ''propertyIsEnumerable'',
      ''toLocaleString'', ''toString'', ''valueOf'', ''__proto__'',
      ''__defineGetter__'', ''__defineSetter__'', ''__lookupGetter__'', ''__lookupSetter__'']"

definition field :: "row \<Rightarrow> string \<Rightarrow> jsval" where
  "field r k =
     (case map_of r k of
        Some v \<Rightarrow> v
      | None \<Rightarrow> if k \<in> set object_prototype then JObject else JUndefined)"

text \<open>
  \<^verbatim>\<open>checkTableMore(code, tableName, scope, primaryKey, limit, lower_bound,
  upper_bound, index_position)\<close>. The remote answers a query by its limit and
  bounds (the other arguments are the same in every recursive call); \<open>getAbi\<close>
  is the outcome of the \<^verbatim>\<open>await this.getAbi(code)\<close> on the error path. A falsy
  result makes \<^verbatim>\<open>result.more\<close> a TypeError, an empty page makes
  \<^verbatim>\<open>ret[0][primaryKey]\<close> one. \<^verbatim>\<open>partResult.splice(1)\<close> is the continuation without
  its first row. \<open>None\<close> is a recursion that never ends.
\<close>

partial_function (option) checkTableMore ::
  "(int \<Rightarrow> jsval \<Rightarrow> jsval \<Rightarrow> row table_result option response) \<Rightarrow> unit response \<Rightarrow>
     string \<Rightarrow> int \<Rightarrow> jsval \<Rightarrow> jsval \<Rightarrow> (error + row list) option" where
  "checkTableMore remote getAbi primaryKey limit lower_bound upper_bound =
     (case remote limit lower_bound upper_bound of
        Rejected err \<Rightarrow> Some (Inl err)
      | Resolved None \<Rightarrow> Some (Inl TypeError)
      | Resolved (Some result) \<Rightarrow>
          (let ret = (case rows result of None \<Rightarrow> [] | Some rs \<Rightarrow> rs)
           in if has_more result \<and>
                 (limit \<le> 0 \<or> (case rows result of None \<Rightarrow> False | Some rs \<Rightarrow> int (length rs) < limit))
              then
                (if ret = [] then Some (Inl TypeError)
                 else
                   (let from = field (hd ret) primaryKey;
                        to = field (last ret) primaryKey
                    in if \<not> truthy from \<or> \<not> truthy to then
                         (case getAbi of
                            Rejected err \<Rightarrow> Some (Inl err)
                          | Resolved abi \<Rightarrow> Some (Inl (CheckMoreError primaryKey)))
                       else
                         Option.bind
                           (checkTableMore remote getAbi primaryKey
                              (limit - int (length ret) + 1) to upper_bound)
                           (\<lambda>partResult.
                              case partResult of
                                Inl err \<Rightarrow> Some (Inl err)
                              | Inr part \<Rightarrow> Some (Inr (ret @ drop 1 part)))))
              else Some (Inr ret)))"

declare checkTableMore.simps [code]

text \<open>
  Modelled from the spec: the remote table behind \<^verbatim>\<open>getTableRows\<close> for the
  cursor scan, which is not code of the repository. The rows are kept in key
  order under the numeric field \<open>pk\<close>; a query answers the rows from the lower
  bound on (up to the upper bound, unless that is -1), as many as the limit
  allows and never more than \<open>cap\<close> in one page, and sets \<^verbatim>\<open>more\<close> when rows of
  the range are left.
\<close>

definition key_of :: "string \<Rightarrow> row \<Rightarrow> int" where
  "key_of pk r = (case field r pk of JNum k \<Rightarrow> k | _ \<Rightarrow> 0)"

definition pagedTable ::
  "nat \<Rightarrow> string \<Rightarrow> row list \<Rightarrow> int \<Rightarrow> jsval \<Rightarrow> jsval \<Rightarrow> row table_result option response" where
  "pagedTable cap pk tbl limit lower_bound upper_bound =
     (case (lower_bound, upper_bound) of
        (JNum l, JNum u) \<Rightarrow>
          (let hit = filter (\<lambda>r. l \<le> key_of pk r \<and> (u = - 1 \<or> key_of pk r \<le> u)) tbl;
               n = (if limit \<le> 0 then cap else min (nat limit) cap)
           in Resolved (Some \<lparr>rows = Some (take n hit), has_more = n < length hit\<rparr>))
      | _ \<Rightarrow> Rejected (RpcError ''bound''))"

text \<open>Rows of a table with the consecutive keys from \<open>k\<close> on under the field \<open>id\<close>.\<close>

definition rows_from :: "int \<Rightarrow> nat \<Rightarrow> row list" where
  "rows_from k n = map (\<lambda>j. [(''id'', JNum (k + int j)), (''owner'', JStr ''alice'')]) [0..<n]"

section \<open>Scenarios and invariants\<close>

text \<open>A remote whose first answer is a refused connection, not a timeout.\<close>

definition refused_once :: seq_remote where
  "refused_once t pos offset =
     (if t = 0 then Rejected (RpcError ''connection refused'')
      else Resolved (Some [\<lparr>account_action_seq = 0, action_trace = ''transfer''\<rparr>]))"

text \<open>A log of \<open>n\<close> actions, numbered from 0.\<close>

definition log_upto :: "nat \<Rightarrow> action list" where
  "log_upto n = map (\<lambda>k. \<lparr>account_action_seq = int k, action_trace = ''transfer''\<rparr>) [0..<n]"

text \<open>
  What \<^verbatim>\<open>req\<close> resolves to over a log of 25 entries (sequence numbers 0 to 24)
  read in pages of 10: the sequence numbers of the page at \<open>pos\<close>.
\<close>

definition log25 :: "int \<Rightarrow> int list" where
  "log25 pos =
     (if 0 \<le> pos \<and> pos < 25 then map (\<lambda>k. pos + int k) [0..<nat (min 10 (25 - pos))] else [])"

text \<open>
  Pages of 2 of a log that grows while a batch is in flight: the page at 4 was
  answered when the log ended at 3, the page at 6 after four more entries.
\<close>

definition late_rows :: "int \<Rightarrow> string list" where
  "late_rows pos =
     (if pos = 0 then [''a0'', ''a1'']
      else if pos = 2 then [''a2'', ''a3'']
      else if pos = 6 then [''a6'', ''a7'']
      else [])"

text \<open>
  A page is full when it has at least \<^verbatim>\<open>count\<close> rows; a delivered page is served
  when it is the non-empty answer for its position. The invariant of the
  dispatcher's loop: delivered positions ascend and lie before the pending ones,
  every delivered page but the last is full, and while the loop runs every
  delivered page is full and every position lies before the next one.
\<close>

definition full :: "int \<Rightarrow> int \<times> 'a list \<Rightarrow> bool" where
  "full count page = (count \<le> int (length (snd page)))"

definition served :: "(int \<Rightarrow> 'a list) \<Rightarrow> int \<times> 'a list \<Rightarrow> bool" where
  "served req page = (snd page = req (fst page) \<and> snd page \<noteq> [])"

definition batch_inv :: "(int \<Rightarrow> 'a list) \<Rightarrow> int \<Rightarrow> int \<Rightarrow> 'a batch \<Rightarrow> bool" where
  "batch_inv req startPos count st =
     (sorted_wrt (<) (map fst (delivered st) @ (if finished st then [] else ranges st))
      \<and> (\<forall>page\<in>set (delivered st). served req page)
      \<and> (\<forall>k. Suc k < length (delivered st) \<longrightarrow> full count (delivered st ! k))
      \<and> (\<not> finished st \<longrightarrow>
           (\<forall>page\<in>set (delivered st). full count page)
           \<and> (\<forall>p\<in>set (map fst (delivered st) @ ranges st). p < startPos + int (i st) * count)))"

text \<open>
  What the dispatcher has fetched and what it hands on: the non-empty pages of
  the positions requested, in the order of the requests, and of a list of
  pages those up to and including the first that is not full. The second
  invariant of the loop: the positions requested are the multiples of \<^verbatim>\<open>count\<close>
  from \<^verbatim>\<open>startPos\<close> on, in order and without a gap; the pages delivered are the
  fetched ones up to and including the first short one; while the loop runs
  every fetched page is full.
\<close>

definition fetched :: "(int \<Rightarrow> 'a list) \<Rightarrow> int list \<Rightarrow> (int \<times> 'a list) list" where
  "fetched req ps = filter (\<lambda>page. snd page \<noteq> []) (map (\<lambda>pos. (pos, req pos)) ps)"

definition upto_first_short :: "int \<Rightarrow> (int \<times> 'a list) list \<Rightarrow> (int \<times> 'a list) list" where
  "upto_first_short count pages =
     takeWhile (full count) pages @ take 1 (dropWhile (full count) pages)"

definition batch_trace :: "(int \<Rightarrow> 'a list) \<Rightarrow> int \<Rightarrow> int \<Rightarrow> 'a batch \<Rightarrow> bool" where
  "batch_trace req startPos count st =
     ((if finished st
       then requested st = map (\<lambda>k. startPos + int k * count) [0..<length (requested st)]
       else requested st @ ranges st = map (\<lambda>k. startPos + int k * count) [0..<i st])
      \<and> delivered st = upto_first_short count (fetched req (requested st))
      \<and> (\<not> finished st \<longrightarrow> list_all (full count) (fetched req (requested st))))"


text \<open>
  The occurrences of a row that a scan in state \<open>st\<close> will have returned when it
  ends: those in \<^verbatim>\<open>ret\<close> and those the outstanding requests lead to.
\<close>

definition pending :: "(int \<Rightarrow> int \<Rightarrow> 'r table_result option response) \<Rightarrow> 'r \<Rightarrow> 'r scan \<Rightarrow> nat" where
  "pending remote x st =
     count_list (ret st) x
       + sum_list (map (\<lambda>q. count_list (collect remote (fst (snd q)) (snd (snd q))) x) (inflight st))"

section \<open>Lemmas\<close>

lemma loop_rejected:
  "remote t pos (endPos - pos) = Rejected ex \<Longrightarrow>
     getActions_loop remote t pos endPos actions = getActions_loop remote (t + 1) pos endPos actions"
  by (subst getActions_loop.simps) simp

lemma loop_retries:
  "(\<And>k. k < n \<Longrightarrow> \<exists>ex. remote (t + k) pos (endPos - pos) = Rejected ex) \<Longrightarrow>
     getActions_loop remote t pos endPos actions = getActions_loop remote (t + n) pos endPos actions"
proof (induction n arbitrary: t)
  case 0
  then show ?case by simp
next
  case (Suc n)
  from Suc.prems [of 0] obtain ex where "remote t pos (endPos - pos) = Rejected ex" by auto
  then have "getActions_loop remote t pos endPos actions
      = getActions_loop remote (t + 1) pos endPos actions"
    by (rule loop_rejected)
  also have "\<dots> = getActions_loop remote (t + 1 + n) pos endPos actions"
  proof (rule Suc.IH)
    fix k assume "k < n"
    then have "Suc k < Suc n" by simp
    from Suc.prems [OF this] show "\<exists>ex. remote (t + 1 + k) pos (endPos - pos) = Rejected ex"
      by simp
  qed
  finally show ?case by simp
qed

lemma loop_returns_after_answer:
  assumes "getActions_loop remote t pos endPos actions = Some y"
  shows "\<exists>k r. remote (t + k) pos (endPos - pos) = Resolved r"
proof (rule getActions_loop.raw_induct
    [where P = "\<lambda>remote t pos endPos actions y. \<exists>k r. remote (t + k) pos (endPos - pos) = Resolved r",
     OF _ assms])
  fix loop :: "seq_remote \<Rightarrow> nat \<Rightarrow> int \<Rightarrow> int \<Rightarrow> action list \<Rightarrow> (error + action list) option"
  fix remote t pos endPos actions y
  assume IH: "\<And>remote t pos endPos actions y. loop remote t pos endPos actions = Some y \<Longrightarrow>
      \<exists>k r. remote (t + k) pos (endPos - pos) = Resolved r"
  assume step: "(case remote t pos (endPos - pos) of
        Rejected ex \<Rightarrow> loop remote (t + 1) pos endPos actions
      | Resolved None \<Rightarrow> Some (Inl GetActionsFailed)
      | Resolved (Some acts) \<Rightarrow>
          (let maxActionInd = (if acts = [] then pos - 1 else account_action_seq (last acts))
           in if maxActionInd < pos then Some (Inr actions)
              else if maxActionInd \<ge> endPos then Some (Inr (actions @ acts))
              else loop remote (t + 1) (maxActionInd + 1) endPos (actions @ acts))) = Some y"
  show "\<exists>k r. remote (t + k) pos (endPos - pos) = Resolved r"
  proof (cases "remote t pos (endPos - pos)")
    case (Rejected ex)
    with step have "loop remote (t + 1) pos endPos actions = Some y" by simp
    from IH [OF this] obtain k r where "remote (t + 1 + k) pos (endPos - pos) = Resolved r"
      by blast
    then have "remote (t + Suc k) pos (endPos - pos) = Resolved r" by simp
    then show ?thesis by blast
  next
    case (Resolved r)
    then have "remote (t + 0) pos (endPos - pos) = Resolved r" by simp
    then show ?thesis by blast
  qed
qed

lemma loop_never_returns:
  assumes "\<And>k. \<exists>ex. remote (t + k) pos (endPos - pos) = Rejected ex"
  shows "getActions_loop remote t pos endPos actions = None"
proof (cases "getActions_loop remote t pos endPos actions")
  case None
  then show ?thesis .
next
  case (Some y)
  from loop_returns_after_answer [OF Some] obtain k r
    where "remote (t + k) pos (endPos - pos) = Resolved r" by blast
  with assms [of k] show ?thesis by simp
qed

lemma window_sorted:
  "sorted_wrt (<) (map account_action_seq entries) \<Longrightarrow>
     sorted_wrt (<) (map account_action_seq (window entries pos offset))"
  by (simp add: window_def sorted_wrt_map sorted_wrt_filter)

lemma sorted_last_max:
  "sorted_wrt (<) (map account_action_seq xs) \<Longrightarrow> x \<in> set xs \<Longrightarrow>
     account_action_seq x \<le> account_action_seq (last xs)"
  by (induction xs) (auto simp: order.strict_implies_order)

lemma filter_above_prefix:
  assumes "sorted_wrt (<) (map account_action_seq w)" and "take n w \<noteq> []"
  shows "filter (\<lambda>a. account_action_seq (last (take n w)) + 1 \<le> account_action_seq a) w = drop n w"
proof -
  let ?m = "account_action_seq (last (take n w))"
  have "sorted_wrt (<) (map account_action_seq (take n w @ drop n w))"
    using assms(1) by simp
  then have pre: "sorted_wrt (<) (map account_action_seq (take n w))"
    and cross: "\<forall>x\<in>set (take n w). \<forall>y\<in>set (drop n w). account_action_seq x < account_action_seq y"
    by (auto simp: sorted_wrt_append simp del: append_take_drop_id)
  have low: "\<forall>x\<in>set (take n w). \<not> ?m + 1 \<le> account_action_seq x"
    using sorted_last_max [OF pre] by fastforce
  have "last (take n w) \<in> set (take n w)" using assms(2) by simp
  with cross have high: "\<forall>y\<in>set (drop n w). ?m + 1 \<le> account_action_seq y"
    by fastforce
  have "filter (\<lambda>a. ?m + 1 \<le> account_action_seq a) (take n w @ drop n w) = drop n w"
    using low high by (simp del: append_take_drop_id)
  then show ?thesis by simp
qed

lemma window_advance:
  "pos \<le> m + 1 \<Longrightarrow>
     window entries (m + 1) (endPos - (m + 1))
       = filter (\<lambda>a. m + 1 \<le> account_action_seq a) (window entries pos (endPos - pos))"
  by (auto simp: window_def intro: filter_cong)

lemma window_bounds:
  "a \<in> set (window entries pos offset) \<Longrightarrow>
     pos \<le> account_action_seq a \<and> account_action_seq a \<le> pos + offset"
  by (simp add: window_def)

lemma take_all_when_last_is_top:
  assumes "sorted_wrt (<) (map account_action_seq w)" and "take n w \<noteq> []"
    and "\<forall>a\<in>set w. account_action_seq a \<le> hi"
    and "hi \<le> account_action_seq (last (take n w))"
  shows "take n w = w"
proof -
  have "drop n w = filter (\<lambda>a. account_action_seq (last (take n w)) + 1 \<le> account_action_seq a) w"
    using filter_above_prefix [OF assms(1,2)] by simp
  also have "\<dots> = []" using assms(3,4) by (auto simp: filter_empty_conv)
  finally have "drop n w = []" .
  then show ?thesis by simp
qed


lemma loop_covers:
  assumes srt: "sorted_wrt (<) (map account_action_seq entries)"
    and cap: "0 < cap" and fin: "finite down"
  shows "getActions_loop (fetchSequenceWindow down cap entries) t pos endPos actions
     = Some (Inr (actions @ window entries pos (endPos - pos)))"
proof (induction "length (window entries pos (endPos - pos)) + card {t' \<in> down. t \<le> t'}"
    arbitrary: t pos actions rule: less_induct)
  case less
  let ?R = "fetchSequenceWindow down cap entries"
  let ?w = "window entries pos (endPos - pos)"
  show ?case
  proof (cases "t \<in> down")
    case True
    define later where "later = {t' \<in> down. t + 1 \<le> t'}"
    define now where "now = {t' \<in> down. t \<le> t'}"
    have "t \<in> now" and "t \<notin> later" and "later \<subseteq> now"
      using True by (auto simp: now_def later_def)
    then have "later \<subset> now" by blast
    moreover have "finite now" using fin by (simp add: now_def)
    ultimately have "card later < card now" by (rule psubset_card_mono [rotated])
    then have "card {t' \<in> down. t + 1 \<le> t'} < card {t' \<in> down. t \<le> t'}"
      by (simp only: now_def later_def)
    then have "getActions_loop ?R (t + 1) pos endPos actions = Some (Inr (actions @ ?w))"
      by (intro less) simp
    moreover have "?R t pos (endPos - pos) = Rejected Timeout"
      using True by (simp add: fetchSequenceWindow_def)
    ultimately show ?thesis by (simp add: loop_rejected)
  next
    case False
    then have resp: "?R t pos (endPos - pos) = Resolved (Some (take cap ?w))"
      by (simp add: fetchSequenceWindow_def)
    show ?thesis
    proof (cases "?w = []")
      case True
      with resp show ?thesis by (subst getActions_loop.simps) simp
    next
      case nonempty: False
      let ?acts = "take cap ?w"
      let ?m = "account_action_seq (last ?acts)"
      have acts: "?acts \<noteq> []" using nonempty cap by simp
      then have "last ?acts \<in> set ?w" by (meson in_set_takeD last_in_set)
      from window_bounds [OF this] have lo: "pos \<le> ?m" and hi: "?m \<le> endPos" by simp_all
      have sw: "sorted_wrt (<) (map account_action_seq ?w)" by (rule window_sorted [OF srt])
      show ?thesis
      proof (cases "endPos \<le> ?m")
        case True
        have "\<forall>a\<in>set ?w. account_action_seq a \<le> endPos"
          using window_bounds [of _ entries pos "endPos - pos"] by simp
        from take_all_when_last_is_top [OF sw acts this True] have "?acts = ?w" .
        with resp acts lo True show ?thesis
          by (subst getActions_loop.simps) (simp add: Let_def)
      next
        case False
        have next_w: "window entries (?m + 1) (endPos - (?m + 1)) = drop cap ?w"
          using lo by (simp add: window_advance [of pos] filter_above_prefix [OF sw acts])
        have "card {t' \<in> down. t + 1 \<le> t'} \<le> card {t' \<in> down. t \<le> t'}"
          using fin by (intro card_mono) auto
        moreover have "length (drop cap ?w) < length ?w" using nonempty cap by simp
        ultimately have "getActions_loop ?R (t + 1) (?m + 1) endPos (actions @ ?acts)
            = Some (Inr ((actions @ ?acts) @ window entries (?m + 1) (endPos - (?m + 1))))"
          by (intro less) (simp add: next_w)
        then have "getActions_loop ?R (t + 1) (?m + 1) endPos (actions @ ?acts)
            = Some (Inr (actions @ ?w))"
          by (simp add: next_w)
        with resp acts lo False show ?thesis
          by (subst getActions_loop.simps) (simp add: Let_def)
      qed
    qed
  qed
qed

lemma receive_stopped: "foldl (receive count) (False, out) pages = (False, out)"
  by (induction pages) (simp_all add: receive_def)

lemma receive_prefix:
  "foldl (receive count) (True, out) pages =
     (list_all (full count) pages,
      out @ takeWhile (full count) pages @ take 1 (dropWhile (full count) pages))"
proof (induction pages arbitrary: out)
  case Nil
  then show ?case by simp
next
  case (Cons page pages)
  show ?case
  proof (cases "full count page")
    case True
    then have "foldl (receive count) (True, out) (page # pages)
        = foldl (receive count) (True, out @ [page]) pages"
      by (simp add: receive_def full_def)
    with True Cons [of "out @ [page]"] show ?thesis by simp
  next
    case False
    then have "foldl (receive count) (True, out) (page # pages)
        = foldl (receive count) (False, out @ [page]) pages"
      by (simp add: receive_def full_def)
    with False show ?thesis by (simp add: receive_stopped)
  qed
qed

lemma prefix_with_first_failure:
  "takeWhile P xs @ take 1 (dropWhile P xs) = take (Suc (length (takeWhile P xs))) xs"
  by (induction xs) simp_all

lemma fst_nonempty_pages:
  "map fst (filter (\<lambda>page. snd page \<noteq> []) (map (\<lambda>pos. (pos, req pos)) rs))
     = filter (\<lambda>pos. req pos \<noteq> []) rs"
  by (induction rs) simp_all

lemma delivered_step:
  fixes req :: "int \<Rightarrow> 'a list"
  assumes srt: "sorted_wrt (<) (map fst dl @ rs)"
    and allfull: "\<forall>page\<in>set dl. full count page"
    and own: "\<forall>page\<in>set dl. served req page"
    and ne: "ne = filter (\<lambda>page. snd page \<noteq> []) (map (\<lambda>pos. (pos, req pos)) rs)"
    and new: "new = takeWhile (full count) ne @ take 1 (dropWhile (full count) ne)"
  shows "sorted_wrt (<) (map fst (dl @ new))"
    and "\<forall>page\<in>set (dl @ new). served req page"
    and "\<forall>k. Suc k < length (dl @ new) \<longrightarrow> full count ((dl @ new) ! k)"
    and "set (map fst new) \<subseteq> set rs"
    and "list_all (full count) ne \<longrightarrow> (\<forall>page\<in>set (dl @ new). full count page)"
proof -
  let ?n = "Suc (length (takeWhile (full count) ne))"
  have new_take: "new = take ?n ne" unfolding new by (rule prefix_with_first_failure)
  have "map fst ne = filter (\<lambda>pos. req pos \<noteq> []) rs"
    unfolding ne by (rule fst_nonempty_pages)
  moreover have "map fst new = take ?n (map fst ne)"
    by (simp only: new_take take_map)
  ultimately have fst_new: "map fst new = take ?n (filter (\<lambda>pos. req pos \<noteq> []) rs)"
    by simp
  show sub: "set (map fst new) \<subseteq> set rs"
    unfolding fst_new by (meson filter_is_subset set_take_subset subset_trans)
  from srt have s1: "sorted_wrt (<) (map fst dl)" and s2: "sorted_wrt (<) rs"
    and cross: "\<forall>x\<in>set (map fst dl). \<forall>y\<in>set rs. x < y"
    by (simp_all add: sorted_wrt_append)
  have "sorted_wrt (<) (map fst new)"
    unfolding fst_new using s2 by (simp add: sorted_wrt_take sorted_wrt_filter)
  with s1 cross sub show "sorted_wrt (<) (map fst (dl @ new))"
    by (simp add: sorted_wrt_append) blast
  have "set new \<subseteq> set ne" unfolding new_take by (rule set_take_subset)
  then have "\<forall>page\<in>set new. served req page"
    unfolding ne by (auto simp: served_def)
  with own show "\<forall>page\<in>set (dl @ new). served req page"
    by auto
  define pre where "pre = dl @ takeWhile (full count) ne"
  have tw: "\<forall>page\<in>set pre. full count page"
    using allfull by (auto simp: pre_def dest: set_takeWhileD)
  have dn: "dl @ new = pre @ take 1 (dropWhile (full count) ne)"
    by (simp add: pre_def new)
  show "\<forall>k. Suc k < length (dl @ new) \<longrightarrow> full count ((dl @ new) ! k)"
  proof (intro allI impI)
    fix k assume "Suc k < length (dl @ new)"
    then have k: "k < length pre" unfolding dn by simp
    then have "(dl @ new) ! k = pre ! k" unfolding dn by (simp add: nth_append)
    moreover from k have "pre ! k \<in> set pre" by (rule nth_mem)
    ultimately show "full count ((dl @ new) ! k)" using tw by simp
  qed
  show "list_all (full count) ne \<longrightarrow> (\<forall>page\<in>set (dl @ new). full count page)"
  proof
    assume "list_all (full count) ne"
    then have "dl @ new = pre"
      unfolding new pre_def by (simp add: list_all_iff)
    with tw show "\<forall>page\<in>set (dl @ new). full count page" by simp
  qed
qed


lemma pass_inv:
  fixes req :: "int \<Rightarrow> 'a list"
  assumes count: "0 < count" and inv: "batch_inv req startPos count st" and run: "\<not> finished st"
  shows "batch_inv req startPos count (pass req startPos count concurrent st)"
proof -
  define dl where "dl = delivered st"
  define p where "p = startPos + int (i st) * count"
  define nxt where "nxt = startPos + int (i st + 1) * count"
  define rs where "rs = ranges st @ [p]"
  define ne where "ne = filter (\<lambda>page. snd page \<noteq> []) (map (\<lambda>pos. (pos, req pos)) rs)"
  define new where "new = takeWhile (full count) ne @ take 1 (dropWhile (full count) ne)"
  from inv run have parts:
    "sorted_wrt (<) (map fst dl @ ranges st)
     \<and> (\<forall>page\<in>set dl. served req page)
     \<and> (\<forall>k. Suc k < length dl \<longrightarrow> full count (dl ! k))
     \<and> (\<forall>page\<in>set dl. full count page)
     \<and> (\<forall>q\<in>set (map fst dl @ ranges st). q < p)"
    unfolding batch_inv_def dl_def p_def by (simp only: if_False simp_thms) blast
  then have srt0: "sorted_wrt (<) (map fst dl @ ranges st)"
    and own: "\<forall>page\<in>set dl. served req page"
    and but_last: "\<forall>k. Suc k < length dl \<longrightarrow> full count (dl ! k)"
    and allfull: "\<forall>page\<in>set dl. full count page"
    and below: "\<forall>q\<in>set (map fst dl @ ranges st). q < p"
    by blast+
  have srt: "sorted_wrt (<) (map fst dl @ rs)"
    using srt0 below by (simp add: rs_def sorted_wrt_append)
  have step: "p < nxt" using count by (simp add: p_def nxt_def algebra_simps)
  have below1: "\<forall>q\<in>set (map fst dl @ rs). q < nxt"
  proof (rule ballI)
    fix q assume "q \<in> set (map fst dl @ rs)"
    then have "q \<in> set (map fst dl @ ranges st) \<or> q = p" by (auto simp: rs_def)
    with below have "q \<le> p" by (auto simp only: order.strict_implies_order)
    then show "q < nxt" using step by (rule le_less_trans)
  qed
  note ds = delivered_step [OF srt allfull own ne_def new_def]
  have pass_eq: "pass req startPos count concurrent st =
     (if rem_is_zero (i st) concurrent then
        (if ne = [] then st\<lparr>requested := requested st @ rs, ranges := rs, finished := True\<rparr>
         else if \<not> list_all (full count) ne
              then st\<lparr>requested := requested st @ rs, ranges := rs, delivered := dl @ new,
                      finished := True\<rparr>
              else st\<lparr>requested := requested st @ rs, i := i st + 1, ranges := [],
                      delivered := dl @ new\<rparr>)
      else st\<lparr>i := i st + 1, ranges := rs\<rparr>)"
    unfolding pass_def Let_def receive_prefix prod.case new_def ne_def rs_def p_def dl_def
    by (rule refl)
  show ?thesis
  proof (cases "rem_is_zero (i st) concurrent")
    case False
    then have eq: "pass req startPos count concurrent st = st\<lparr>i := i st + 1, ranges := rs\<rparr>"
      by (simp only: pass_eq if_False simp_thms)
    show ?thesis
      unfolding eq batch_inv_def
      using srt own but_last allfull below1 run by (simp add: dl_def nxt_def)
  next
    case True
    show ?thesis
    proof (cases "ne = []")
      case empty: True
      have eq: "pass req startPos count concurrent st
          = st\<lparr>requested := requested st @ rs, ranges := rs, finished := True\<rparr>"
        using True empty by (simp only: pass_eq if_True simp_thms)
      from srt0 have "sorted_wrt (<) (map fst dl)" by (simp add: sorted_wrt_append)
      then show ?thesis
        unfolding eq batch_inv_def using own but_last by (simp add: dl_def)
    next
      case False
      show ?thesis
      proof (cases "list_all (full count) ne")
        case short: False
        have eq: "pass req startPos count concurrent st
            = st\<lparr>requested := requested st @ rs, ranges := rs, delivered := dl @ new,
                 finished := True\<rparr>"
          using True False short by (simp only: pass_eq if_True if_False simp_thms)
        show ?thesis
          unfolding eq batch_inv_def using ds(1,2,3) by simp
      next
        case allFull: True
        have eq: "pass req startPos count concurrent st
            = st\<lparr>requested := requested st @ rs, i := i st + 1, ranges := [],
                 delivered := dl @ new\<rparr>"
          using True False allFull by (simp only: pass_eq if_True if_False simp_thms)
        have "set (map fst (dl @ new)) \<subseteq> set (map fst dl @ rs)"
          using ds(4) by auto
        with below1 have "\<forall>q\<in>set (map fst (dl @ new)). q < nxt"
          by (meson subsetD)
        then show ?thesis
          unfolding eq batch_inv_def using ds(1,2,3) ds(5) allFull run by (simp add: nxt_def)
      qed
    qed
  qed
qed

lemma passes_inv:
  "0 < count \<Longrightarrow> batch_inv req startPos count st \<Longrightarrow>
     batch_inv req startPos count (passes n req startPos count concurrent st)"
  by (induction n arbitrary: st) (simp_all add: pass_inv)

lemma batch0_inv: "batch_inv req startPos count batch0"
  by (simp add: batch_inv_def batch0_def)

lemma passes_finished:
  "finished st \<Longrightarrow> passes k req startPos count concurrent st = st"
  by (cases k) simp_all

lemma passes_add:
  "passes (n + k) req startPos count concurrent st
     = passes k req startPos count concurrent (passes n req startPos count concurrent st)"
  by (induction n arbitrary: st) (simp_all add: passes_finished)

lemma fetched_append: "fetched req (ps @ qs) = fetched req ps @ fetched req qs"
  by (simp add: fetched_def)

lemma upto_first_short_full:
  "list_all (full count) xs \<Longrightarrow> upto_first_short count (xs @ ys) = xs @ upto_first_short count ys"
  by (simp add: upto_first_short_def list_all_iff takeWhile_append2 dropWhile_append2)

lemma upto_first_short_all:
  "list_all (full count) xs \<Longrightarrow> upto_first_short count xs = xs"
  using upto_first_short_full [of count xs "[]"] by (simp add: upto_first_short_def)

lemma pass_unfold:
  "pass req startPos count concurrent st =
     (if rem_is_zero (i st) concurrent then
        (if fetched req (ranges st @ [startPos + int (i st) * count]) = []
         then st\<lparr>requested := requested st @ ranges st @ [startPos + int (i st) * count],
                 ranges := ranges st @ [startPos + int (i st) * count], finished := True\<rparr>
         else if \<not> list_all (full count) (fetched req (ranges st @ [startPos + int (i st) * count]))
         then st\<lparr>requested := requested st @ ranges st @ [startPos + int (i st) * count],
                 ranges := ranges st @ [startPos + int (i st) * count],
                 delivered := delivered st
                   @ upto_first_short count (fetched req (ranges st @ [startPos + int (i st) * count])),
                 finished := True\<rparr>
         else st\<lparr>requested := requested st @ ranges st @ [startPos + int (i st) * count],
                 i := i st + 1, ranges := [],
                 delivered := delivered st
                   @ upto_first_short count (fetched req (ranges st @ [startPos + int (i st) * count]))\<rparr>)
      else st\<lparr>i := i st + 1, ranges := ranges st @ [startPos + int (i st) * count]\<rparr>)"
  unfolding pass_def Let_def receive_prefix prod.case fetched_def upto_first_short_def
  by (rule refl)

lemma pass_trace:
  fixes req :: "int \<Rightarrow> 'a list"
  assumes inv: "batch_trace req startPos count st" and run: "\<not> finished st"
  shows "batch_trace req startPos count (pass req startPos count concurrent st)"
proof -
  define p where "p = startPos + int (i st) * count"
  define rs where "rs = ranges st @ [p]"
  define old where "old = fetched req (requested st)"
  define ne where "ne = fetched req rs"
  from inv run have seq: "requested st @ ranges st = map (\<lambda>k. startPos + int k * count) [0..<i st]"
    and dl: "delivered st = upto_first_short count old"
    and allfull: "list_all (full count) old"
    by (simp_all add: batch_trace_def old_def)
  from allfull dl have dl': "delivered st = old" by (simp add: upto_first_short_all)
  have seq1: "requested st @ rs = map (\<lambda>k. startPos + int k * count) [0..<i st + 1]"
    using seq by (simp add: rs_def p_def)
  then have "length (requested st @ rs) = i st + 1"
    by (simp only: length_map length_upt diff_zero)
  with seq1 have seq2: "requested st @ rs
      = map (\<lambda>k. startPos + int k * count) [0..<length (requested st @ rs)]"
    by simp
  have fe: "fetched req (requested st @ rs) = old @ ne"
    by (simp add: fetched_append old_def ne_def)
  have tr: "upto_first_short count (fetched req (requested st @ rs))
      = delivered st @ upto_first_short count ne"
    unfolding fe dl' using allfull by (rule upto_first_short_full)
  have pass_eq: "pass req startPos count concurrent st =
     (if rem_is_zero (i st) concurrent then
        (if ne = [] then st\<lparr>requested := requested st @ rs, ranges := rs, finished := True\<rparr>
         else if \<not> list_all (full count) ne
              then st\<lparr>requested := requested st @ rs, ranges := rs,
                      delivered := delivered st @ upto_first_short count ne, finished := True\<rparr>
              else st\<lparr>requested := requested st @ rs, i := i st + 1, ranges := [],
                      delivered := delivered st @ upto_first_short count ne\<rparr>)
      else st\<lparr>i := i st + 1, ranges := rs\<rparr>)"
    unfolding ne_def rs_def p_def by (rule pass_unfold)
  show ?thesis
  proof (cases "rem_is_zero (i st) concurrent")
    case False
    then have eq: "pass req startPos count concurrent st = st\<lparr>i := i st + 1, ranges := rs\<rparr>"
      by (simp only: pass_eq if_False simp_thms)
    show ?thesis
      unfolding eq batch_trace_def using seq1 dl allfull run by (simp add: old_def)
  next
    case True
    show ?thesis
    proof (cases "ne = []")
      case empty: True
      have eq: "pass req startPos count concurrent st
          = st\<lparr>requested := requested st @ rs, ranges := rs, finished := True\<rparr>"
        using True empty by (simp only: pass_eq if_True simp_thms)
      from tr empty have "upto_first_short count (fetched req (requested st @ rs)) = delivered st"
        by (simp add: upto_first_short_def)
      with seq2 show ?thesis
        unfolding eq batch_trace_def by simp
    next
      case False
      show ?thesis
      proof (cases "list_all (full count) ne")
        case short: False
        have eq: "pass req startPos count concurrent st
            = st\<lparr>requested := requested st @ rs, ranges := rs,
                 delivered := delivered st @ upto_first_short count ne, finished := True\<rparr>"
          using True False short by (simp only: pass_eq if_True if_False simp_thms)
        show ?thesis
          unfolding eq batch_trace_def using seq2 tr by simp
      next
        case allFull: True
        have eq: "pass req startPos count concurrent st
            = st\<lparr>requested := requested st @ rs, i := i st + 1, ranges := [],
                 delivered := delivered st @ upto_first_short count ne\<rparr>"
          using True False allFull by (simp only: pass_eq if_True if_False simp_thms)
        have "list_all (full count) (fetched req (requested st @ rs))"
          unfolding fe using allfull allFull by simp
        then show ?thesis
          unfolding eq batch_trace_def using seq1 tr run by simp
      qed
    qed
  qed
qed

lemma passes_trace:
  "batch_trace req startPos count st \<Longrightarrow>
     batch_trace req startPos count (passes n req startPos count concurrent st)"
  by (induction n arbitrary: st) (simp_all add: pass_trace)

lemma batch0_trace: "batch_trace req startPos count batch0"
  by (simp add: batch_trace_def batch0_def fetched_def upto_first_short_def)

lemma positions_ascend:
  assumes "0 < count"
  shows "sorted_wrt (<) (map (\<lambda>k. startPos + int k * count) [0..<m])"
  using assms by (simp add: sorted_wrt_iff_nth_less)

lemma fst_fetched: "map fst (fetched req ps) = filter (\<lambda>pos. req pos \<noteq> []) ps"
  unfolding fetched_def by (rule fst_nonempty_pages)

lemma first_short_page:
  assumes srt: "sorted_wrt (<) (map fst pages)"
    and mem: "page \<in> set pages" and short: "\<not> full count page"
  shows "upto_first_short count pages \<noteq> []"
    and "\<not> full count (last (upto_first_short count pages))"
    and "\<forall>q\<in>set (upto_first_short count pages). fst q \<le> fst page"
proof -
  have "dropWhile (full count) pages \<noteq> []"
    using mem short by auto
  then obtain d ds where d: "dropWhile (full count) pages = d # ds"
    by (cases "dropWhile (full count) pages") auto
  have nd: "\<not> full count d"
    using hd_dropWhile [of "full count" pages] d by simp
  have split: "pages = takeWhile (full count) pages @ d # ds"
    using takeWhile_dropWhile_id [of "full count" pages] d by simp
  have u: "upto_first_short count pages = takeWhile (full count) pages @ [d]"
    by (simp add: upto_first_short_def d)
  show "upto_first_short count pages \<noteq> []" by (simp add: u)
  show "\<not> full count (last (upto_first_short count pages))" using nd by (simp add: u)
  have "page \<notin> set (takeWhile (full count) pages)"
    using short by (auto dest: set_takeWhileD)
  with mem split have tail: "page \<in> set (d # ds)"
    by (metis Un_iff set_append)
  from srt have "sorted_wrt (<) (map fst (takeWhile (full count) pages) @ map fst (d # ds))"
    by (subst (asm) split) simp
  then have cross: "\<forall>x\<in>set (takeWhile (full count) pages). \<forall>y\<in>set (d # ds). fst x < fst y"
    and tl: "sorted_wrt (<) (map fst (d # ds))"
    by (auto simp add: sorted_wrt_append)
  from tl tail have dle: "fst d \<le> fst page" by auto
  show "\<forall>q\<in>set (upto_first_short count pages). fst q \<le> fst page"
  proof
    fix q assume "q \<in> set (upto_first_short count pages)"
    then have "q \<in> set (takeWhile (full count) pages) \<or> q = d" by (auto simp add: u)
    then show "fst q \<le> fst page"
    proof
      assume "q \<in> set (takeWhile (full count) pages)"
      with cross have "fst q < fst d" by simp
      with dle show ?thesis by simp
    next
      assume "q = d" with dle show ?thesis by simp
    qed
  qed
qed

lemma findIndex_range: "- 1 \<le> findIndex P xs \<and> findIndex P xs < int (length xs)"
  by (induction xs) (auto simp: Let_def)

lemma length_splice1:
  "xs \<noteq> [] \<Longrightarrow> - 1 \<le> k \<Longrightarrow> k < int (length xs) \<Longrightarrow> Suc (length (splice1 k xs)) = length xs"
proof (cases "k < 0")
  case True
  assume "xs \<noteq> []" and "- 1 \<le> k"
  with True have "k = - 1" and "0 < length xs" by simp_all
  then show ?thesis by (cases xs) (simp_all add: splice1_def Let_def)
next
  case False
  assume "k < int (length xs)"
  with False show ?thesis by (simp add: splice1_def Let_def)
qed

lemma Require_balance:
  "length (pool st) = length (inflight st) \<Longrightarrow>
     length (pool (Require l u st)) = length (inflight (Require l u st))"
  by (simp add: Require_def)

lemma settle_balance:
  assumes bal: "length (pool st) = length (inflight st)" and k: "k < length (inflight st)"
  shows "length (pool (settle remote k st)) = length (inflight (settle remote k st))"
proof -
  obtain p l u where q: "inflight st ! k = (p, l, u)" by (cases "inflight st ! k") auto
  let ?st1 = "st\<lparr>inflight := take k (inflight st) @ drop (k + 1) (inflight st)\<rparr>"
  from bal k have ne: "pool st \<noteq> []" by auto
  have len1: "Suc (length (inflight ?st1)) = length (pool st)" using bal k by simp
  show ?thesis
  proof (cases "remote l u")
    case (Rejected err)
    have "Suc (length (splice1 0 (pool st))) = length (pool st)"
      using ne by (intro length_splice1) simp_all
    with len1 Rejected q show ?thesis by (simp add: settle_def on_rejected_def)
  next
    case (Resolved result)
    let ?st2 = "?st1\<lparr>pool := splice1 (findIndex (\<lambda>v. v = p) (pool st)) (pool st)\<rparr>"
    have "Suc (length (splice1 (findIndex (\<lambda>v. v = p) (pool st)) (pool st))) = length (pool st)"
      using ne findIndex_range [of "\<lambda>v. v = p" "pool st"] by (intro length_splice1) simp_all
    with len1 have b2: "length (pool ?st2) = length (inflight ?st2)" by simp
    have "length (pool (on_fulfilled p l u result ?st1)) = length (inflight (on_fulfilled p l u result ?st1))"
      using b2 by (auto simp: on_fulfilled_def Let_def intro!: Require_balance split: option.splits)
    with Resolved q show ?thesis by (simp add: settle_def)
  qed
qed

lemma run_balance:
  "length (pool st) = length (inflight st) \<Longrightarrow>
     length (pool (run remote sched st)) = length (inflight (run remote sched st))"
proof (induction remote sched st rule: run.induct)
  case (1 remote sched st)
  have unfold: "run remote sched st =
      (if inflight st = [] then st
       else run remote sched (settle remote (sched st mod length (inflight st)) st))"
    by (rule run.simps)
  show ?case
  proof (cases "inflight st = []")
    case True
    with 1(2) show ?thesis by (simp add: unfold)
  next
    case False
    then have "sched st mod length (inflight st) < length (inflight st)" by simp
    from settle_balance [OF 1(2) this] 1(1) [OF False] False show ?thesis
      by (simp add: unfold)
  qed
qed

lemma run_drained: "inflight (run remote sched st) = []"
proof (induction remote sched st rule: run.induct)
  case (1 remote sched st)
  have "run remote sched st =
      (if inflight st = [] then st
       else run remote sched (settle remote (sched st mod length (inflight st)) st))"
    by (rule run.simps)
  with 1 show ?case by (cases "inflight st = []") simp_all
qed

lemma hints_balance:
  "length (pool st) = length (inflight st) \<Longrightarrow>
     length (pool (snd (foldl (\<lambda>(l, st) m. (m, Require l m st)) (l0, st) ms)))
       = length (inflight (snd (foldl (\<lambda>(l, st) m. (m, Require l m st)) (l0, st) ms)))"
  by (induction ms arbitrary: l0 st) (simp_all add: Require_balance)

lemma getTableAll_returns:
  fixes remote :: "int \<Rightarrow> int \<Rightarrow> 'r table_result option response"
  shows "\<exists>found. getTableAll remote sched lower upper hint = Some (Inr found)"
proof -
  let ?st0 = "if hint = [] then Require lower upper (scan0 :: 'r scan)
              else snd (foldl (\<lambda>(l, st) m. (m, Require l m st)) (lower, scan0) (hint @ [upper]))"
  have b0: "length (pool (scan0 :: 'r scan)) = length (inflight (scan0 :: 'r scan))"
    by (simp add: scan0_def)
  have "length (pool ?st0) = length (inflight ?st0)"
  proof (cases "hint = []")
    case True
    with Require_balance [OF b0] show ?thesis by simp
  next
    case False
    with hints_balance [OF b0, of lower "hint @ [upper]"] show ?thesis by (simp only: if_False)
  qed
  from run_balance [OF this, of remote sched] have "pool (run remote sched ?st0) = []"
    by (simp add: run_drained)
  then show ?thesis by (simp add: getTableAll_def Let_def)
qed

lemma pending_Require:
  "pending remote x (Require l u st)
     = pending remote x st + (if l \<ge> u then 0 else count_list (collect remote l u) x)"
  by (simp add: pending_def Require_def)

lemma pending_on_fulfilled:
  "pending remote x (on_fulfilled p l u result st)
     = pending remote x st
       + count_list (case result of
            None \<Rightarrow> []
          | Some res \<Rightarrow>
              if \<not> has_more res then (case rows res of None \<Rightarrow> [] | Some rs \<Rightarrow> rs)
              else (if l \<ge> midpoint l u - 1 then [] else collect remote l (midpoint l u - 1))
                 @ (if midpoint l u \<ge> u then [] else collect remote (midpoint l u) u)) x"
proof -
  let ?st1 = "st\<lparr>pool := splice1 (findIndex (\<lambda>v. v = p) (pool st)) (pool st)\<rparr>"
  have same: "pending remote x ?st1 = pending remote x st" by (simp add: pending_def)
  show ?thesis
  proof (cases result)
    case None
    then show ?thesis by (simp add: on_fulfilled_def Let_def same)
  next
    case (Some res)
    show ?thesis
    proof (cases "has_more res")
      case False
      with Some same show ?thesis
        by (cases "rows res") (simp_all add: on_fulfilled_def Let_def pending_def)
    next
      case True
      with Some same show ?thesis
        by (simp add: on_fulfilled_def Let_def pending_Require)
    qed
  qed
qed

lemma pending_settle:
  assumes "k < length (inflight st)"
  shows "pending remote x (settle remote k st) = pending remote x st"
proof -
  obtain p l u where q: "inflight st ! k = (p, l, u)" by (cases "inflight st ! k") auto
  let ?st1 = "st\<lparr>inflight := take k (inflight st) @ drop (k + 1) (inflight st)\<rparr>"
  have rem: "pending remote x ?st1 + count_list (collect remote l u) x = pending remote x st"
    using sum_list_remove_nth [OF assms,
        of "\<lambda>q. count_list (collect remote (fst (snd q)) (snd (snd q))) x"] q
    by (simp add: pending_def)
  show ?thesis
  proof (cases "remote l u")
    case (Rejected err)
    have "pending remote x (on_rejected p err ?st1) = pending remote x ?st1"
      by (simp add: on_rejected_def pending_def)
    moreover have "collect remote l u = []"
      using Rejected by (subst collect.simps) simp
    ultimately show ?thesis using rem Rejected q by (simp add: settle_def Let_def)
  next
    case (Resolved result)
    have "collect remote l u =
        (case result of
            None \<Rightarrow> []
          | Some res \<Rightarrow>
              if \<not> has_more res then (case rows res of None \<Rightarrow> [] | Some rs \<Rightarrow> rs)
              else (if l \<ge> midpoint l u - 1 then [] else collect remote l (midpoint l u - 1))
                 @ (if midpoint l u \<ge> u then [] else collect remote (midpoint l u) u))"
      using Resolved by (subst collect.simps) (simp split: option.splits)
    with pending_on_fulfilled [of remote x p l u result ?st1] rem Resolved q show ?thesis
      by (simp add: settle_def Let_def)
  qed
qed

lemma pending_run: "pending remote x (run remote sched st) = pending remote x st"
proof (induction remote sched st rule: run.induct)
  case (1 remote sched st)
  have unfold: "run remote sched st =
      (if inflight st = [] then st
       else run remote sched (settle remote (sched st mod length (inflight st)) st))"
    by (rule run.simps)
  show ?case
  proof (cases "inflight st = []")
    case True
    then show ?thesis by (simp add: unfold)
  next
    case False
    then have "sched st mod length (inflight st) < length (inflight st)" by simp
    from pending_settle [OF this] 1 [OF False] False show ?thesis by (simp add: unfold)
  qed
qed

lemma pending_hints:
  "pending remote x (snd (foldl (\<lambda>(l, st) m. (m, Require l m st)) (l0, st) ms))
     = pending remote x st + count_list (collect_hints remote l0 ms) x"
  by (induction ms arbitrary: l0 st) (simp_all add: pending_Require)

lemma getTableAll_collect:
  fixes remote :: "int \<Rightarrow> int \<Rightarrow> 'r table_result option response"
  shows "\<exists>found. getTableAll remote sched lower upper hint = Some (Inr found)
     \<and> (\<forall>x. count_list found x = count_list (collect_hints remote lower (hint @ [upper])) x)"
proof -
  let ?st0 = "if hint = [] then Require lower upper (scan0 :: 'r scan)
              else snd (foldl (\<lambda>(l, st) m. (m, Require l m st)) (lower, scan0) (hint @ [upper]))"
  let ?final = "run remote sched ?st0"
  from getTableAll_returns [of remote sched lower upper hint]
  have res: "getTableAll remote sched lower upper hint = Some (Inr (ret ?final))"
    by (auto simp: getTableAll_def Let_def split: if_splits)
  have p0: "\<And>x. pending remote x (scan0 :: 'r scan) = 0" by (simp add: pending_def scan0_def)
  have start: "\<And>x. pending remote x ?st0 = count_list (collect_hints remote lower (hint @ [upper])) x"
  proof -
    fix x
    show "pending remote x ?st0 = count_list (collect_hints remote lower (hint @ [upper])) x"
    proof (cases "hint = []")
      case True
      then show ?thesis by (simp add: pending_Require p0)
    next
      case False
      with pending_hints [of remote x lower scan0 "hint @ [upper]"] p0 [of x] show ?thesis
        by (simp only: if_False add_0)
    qed
  qed
  have "\<And>x. count_list (ret ?final) x = pending remote x ?final"
    by (simp add: pending_def run_drained)
  then have "\<forall>x. count_list (ret ?final) x = count_list (collect_hints remote lower (hint @ [upper])) x"
    by (simp add: pending_run start)
  with res show ?thesis by blast
qed

lemma same_counts_set:
  assumes "\<forall>x. count_list xs x = count_list ys x"
  shows "set xs = set ys"
proof -
  have "\<And>x. x \<in> set xs \<longleftrightarrow> x \<in> set ys"
  proof -
    fix x
    have "x \<in> set xs \<longleftrightarrow> 0 < count_list xs x" by (simp add: count_list_0_iff neq0_conv [symmetric] del: neq0_conv)
    also have "\<dots> \<longleftrightarrow> 0 < count_list ys x" using assms by simp
    also have "\<dots> \<longleftrightarrow> x \<in> set ys" by (simp add: count_list_0_iff neq0_conv [symmetric] del: neq0_conv)
    finally show "x \<in> set xs \<longleftrightarrow> x \<in> set ys" .
  qed
  then show ?thesis by blast
qed

lemma same_counts_length:
  assumes "\<forall>x. count_list xs x = count_list ys x"
  shows "length xs = length ys"
proof -
  have s: "set xs = set ys" using assms by (rule same_counts_set)
  have "length xs = sum (count_list xs) (set xs)" by (simp add: sum_count_set)
  also have "\<dots> = sum (count_list ys) (set ys)" using assms s by simp
  also have "\<dots> = length ys" by (simp add: sum_count_set)
  finally show ?thesis .
qed

lemma same_counts_distinct:
  assumes "\<forall>x. count_list xs x = count_list ys x" and "distinct ys"
  shows "distinct xs"
proof -
  have "card (set xs) = card (set ys)" using same_counts_set [OF assms(1)] by simp
  also have "\<dots> = length ys" using assms(2) by (rule distinct_card)
  also have "\<dots> = length xs" using same_counts_length [OF assms(1)] by simp
  finally show ?thesis by (rule card_distinct)
qed

lemma scan_result:
  fixes remote :: "int \<Rightarrow> int \<Rightarrow> 'r table_result option response"
  assumes "collect_hints remote lower (hint @ [upper]) = expected"
  shows "\<exists>found. getTableAll remote sched lower upper hint = Some (Inr found)
     \<and> set found = set expected \<and> length found = length expected"
proof -
  from getTableAll_collect [of remote sched lower upper hint]
  obtain found where f: "getTableAll remote sched lower upper hint = Some (Inr found)"
    and c: "\<forall>x. count_list found x = count_list expected x"
    unfolding assms by blast
  from same_counts_set [OF c] same_counts_length [OF c] f show ?thesis by blast
qed

lemma rows_in_range_bound:
  assumes "distinct (map key tbl)"
  shows "length (filter (\<lambda>r. in_range True l u (key r)) tbl) \<le> nat (u - l + 1)"
proof -
  let ?hit = "filter (\<lambda>r. in_range True l u (key r)) tbl"
  have d: "distinct (map key ?hit)" using assms by (rule distinct_map_filter)
  have "set (map key ?hit) \<subseteq> {l..u}" by (auto simp: in_range_def)
  then have "card (set (map key ?hit)) \<le> card {l..u}" by (intro card_mono) simp_all
  moreover have "card (set (map key ?hit)) = length (map key ?hit)"
    using d by (rule distinct_card)
  ultimately show ?thesis by simp
qed

lemma count_split_range:
  assumes "l \<le> m" and "m \<le> u + 1"
  shows "count_list (filter (\<lambda>r. in_range True l (m - 1) (key r)) tbl) x
       + count_list (filter (\<lambda>r. in_range True m u (key r)) tbl) x
       = count_list (filter (\<lambda>r. in_range True l u (key r)) tbl) x"
  using assms by (induction tbl) (auto simp: in_range_def)

lemma collect_complete:
  assumes d: "distinct (map key tbl)" and cap: "3 \<le> cap"
  shows "l < u \<Longrightarrow>
     count_list (collect (fetchRange True cap key tbl) l u) x
       = count_list (filter (\<lambda>r. in_range True l u (key r)) tbl) x"
proof (induction "nat (u - l)" arbitrary: l u rule: less_induct)
  case less
  let ?R = "fetchRange True cap key tbl"
  let ?hit = "filter (\<lambda>r. in_range True l u (key r)) tbl"
  let ?mid = "l + (u - l + 1) div 2"
  have mid: "midpoint l u = ?mid" using less.prems by (simp add: midpoint_nonneg)
  have resp: "?R l u = Resolved (Some \<lparr>rows = Some (take cap ?hit), has_more = cap < length ?hit\<rparr>)"
    by (simp add: fetchRange_def Let_def)
  show ?case
  proof (cases "cap < length ?hit")
    case False
    then have "collect ?R l u = ?hit"
      using resp by (subst collect.simps) simp
    then show ?thesis by simp
  next
    case True
    with cap rows_in_range_bound [OF d, of l u] have wide: "3 \<le> u - l" by linarith
    then have left: "l < ?mid - 1" and right: "?mid < u" by linarith+
    have unfold: "collect ?R l u = collect ?R l (?mid - 1) @ collect ?R ?mid u"
      using resp True left right by (subst collect.simps) (simp add: mid)
    have "nat (?mid - 1 - l) < nat (u - l)" and "nat (u - ?mid) < nat (u - l)"
      using wide by linarith+
    from less.hyps [OF this(1) left] less.hyps [OF this(2) right]
    have "count_list (collect ?R l u) x
        = count_list (filter (\<lambda>r. in_range True l (?mid - 1) (key r)) tbl) x
        + count_list (filter (\<lambda>r. in_range True ?mid u (key r)) tbl) x"
      by (simp add: unfold)
    also have "\<dots> = count_list ?hit x"
      using left right by (intro count_split_range) linarith+
    finally show ?thesis .
  qed
qed

text \<open>
  What the scan does guarantee: over a remote that takes both bounds as
  inclusive and serves at least three rows a page, a table with distinct keys
  and a range with \<open>lower < upper\<close>, every schedule returns the rows of the range,
  each as often as the table holds it.
\<close>

theorem getTableAll_complete_for_wide_pages:
  assumes "distinct (map key tbl)" and "3 \<le> cap" and "lower < upper"
  shows "\<exists>found. getTableAll (fetchRange True cap key tbl) sched lower upper [] = Some (Inr found)
     \<and> (\<forall>x. count_list found x
            = count_list (filter (\<lambda>r. lower \<le> key r \<and> key r \<le> upper) tbl) x)"
proof -
  from getTableAll_collect [of "fetchRange True cap key tbl" sched lower upper "[]"]
  obtain found where f: "getTableAll (fetchRange True cap key tbl) sched lower upper [] = Some (Inr found)"
    and c: "\<forall>x. count_list found x
        = count_list (collect_hints (fetchRange True cap key tbl) lower ([] @ [upper])) x"
    by blast
  have "\<forall>x. count_list found x
      = count_list (filter (\<lambda>r. lower \<le> key r \<and> key r \<le> upper) tbl) x"
    using c assms(3) collect_complete [OF assms(1,2,3)] by (simp add: in_range_def)
  with f show ?thesis by blast
qed

lemma field_inherited:
  "field [] ''constructor'' = JObject \<and> truthy (field [] ''toString'')
   \<and> field [] ''id'' = JUndefined"
  by code_simp










section \<open>Claims\<close>

text \<open>
  C9. Claimed: when the caller gives no upper bound, the scan runs up to
  18446744073709551615, and -1 itself is never the upper bound, in whatever
  form the sentinel is passed. The code tests \<^verbatim>\<open>upperNum && upperNum !== -1\<close>:
  a missing or falsy bound and the number -1 give 18446744073709551615, but the
  numeric string \<open>-1\<close> (the parameter is documented as a number or a numeric
  string) passes the test and is parsed as it is. The bound is then -1, and a
  scan from 0 sends no request and returns no row.
\<close>

theorem getTableAll_upper_string_sentinel:
  "upper_of (JNum (- 1)) = Some 18446744073709551615
   \<and> upper_of JUndefined = Some 18446744073709551615
   \<and> upper_of (JNum 0) = Some 18446744073709551615
   \<and> upper_of (JStr '''') = Some 18446744073709551615
   \<and> upper_of (JStr ''-1'') = Some (- 1)
   \<and> lower_of (JNum 0) = Some 0
   \<and> getTableAll remote sched 0 (- 1) [] = Some (Inr [])"
  by (simp add: upper_of_def lower_of_def digits_def digit_of_def getTableAll_def
      Require_def scan0_def run.simps)

text \<open>
  C1. Claimed: whatever the page cap, the scan of a range returns every row of
  the table in that range exactly once; in particular keys 0 to 9 with a cap
  of 4 rows, scanned from 0 to 10. In the code \<^verbatim>\<open>Require\<close> sends nothing for a
  range with \<^verbatim>\<open>_l.gte(_u)\<close>, and a bisection hands down \<open>[l, mid - 1]\<close> and
  \<open>[mid, u]\<close>. For every order in which the requests settle: with an inclusive
  upper bound the scenario comes out complete, ten rows, each key once; but a
  single-key range \<open>[k, k]\<close> is never queried, and with a cap of 2 rows the keys
  2 and 5 are lost. With an exclusive upper bound the key \<open>mid - 1\<close> belongs to
  neither half, and the scenario itself loses the keys 4 and 7.
\<close>

theorem getTableAll_misses_rows:
  "(\<exists>found. getTableAll (fetchRange True 4 id [0, 1, 2, 3, 4, 5, 6, 7, 8, 9]) sched 0 10 []
        = Some (Inr found) \<and> set found = {0, 1, 2, 3, 4, 5, 6, 7, 8, 9} \<and> length found = 10)
   \<and> (\<exists>found. getTableAll (fetchRange True 2 id [0, 1, 2, 3, 4, 5, 6, 7, 8, 9]) sched 0 10 []
        = Some (Inr found) \<and> set found = {0, 1, 3, 4, 6, 7, 8, 9})
   \<and> (\<exists>found. getTableAll (fetchRange False 4 id [0, 1, 2, 3, 4, 5, 6, 7, 8, 9]) sched 0 10 []
        = Some (Inr found) \<and> set found = {0, 1, 2, 3, 5, 6, 8, 9})"
proof -
  let ?keys = "[0, 1, 2, 3, 4, 5, 6, 7, 8, 9] :: int list"
  have "collect_hints (fetchRange True 4 id ?keys) 0 ([] @ [10]) = [0, 1, 2, 3, 4, 5, 6, 7, 8, 9]"
    by code_simp
  from scan_result [OF this, of sched]
  have a: "\<exists>found. getTableAll (fetchRange True 4 id ?keys) sched 0 10 []
        = Some (Inr found) \<and> set found = {0, 1, 2, 3, 4, 5, 6, 7, 8, 9} \<and> length found = 10"
    by auto
  have "collect_hints (fetchRange True 2 id ?keys) 0 ([] @ [10]) = [0, 1, 3, 4, 6, 7, 8, 9]"
    by code_simp
  from scan_result [OF this, of sched]
  have b: "\<exists>found. getTableAll (fetchRange True 2 id ?keys) sched 0 10 []
        = Some (Inr found) \<and> set found = {0, 1, 3, 4, 6, 7, 8, 9}"
    by auto
  have "collect_hints (fetchRange False 4 id ?keys) 0 ([] @ [10]) = [0, 1, 2, 3, 5, 6, 8, 9]"
    by code_simp
  from scan_result [OF this, of sched]
  have c: "\<exists>found. getTableAll (fetchRange False 4 id ?keys) sched 0 10 []
        = Some (Inr found) \<and> set found = {0, 1, 2, 3, 5, 6, 8, 9}"
    by auto
  from a b c show ?thesis by blast
qed

text \<open>
  C3. Claimed: a sub-range query that fails removes itself, and only itself,
  from the pool, and its error reaches the caller of \<^verbatim>\<open>getTableAll\<close>, which gets
  no partial result. In the code, with promises 0 and 1 outstanding and the
  request of promise 1 rejected, the \<^verbatim>\<open>.catch\<close> handler removes promise 0 and
  leaves promise 1 in the pool; the error only rejects promise 1, which no one
  awaits; and the call returns the rows of the other sub-range. Whatever the
  remote answers or rejects, and in whatever order, the call returns rows,
  never an error.
\<close>

theorem getTableAll_rejection_is_swallowed:
  "pool two_requests = [0, 1]
   \<and> map fst (inflight two_requests) = [0, 1]
   \<and> pool (settle upper_half_fails 1 two_requests) = [1]
   \<and> unhandled (settle upper_half_fails 1 two_requests) = [RpcError ''connection reset'']
   \<and> getTableAll upper_half_fails lifo 0 10 [5] = Some (Inr [1, 2])
   \<and> (\<exists>found. getTableAll remote sched lower upper hint = Some (Inr found))"
proof -
  have "pool two_requests = [0, 1]
   \<and> map fst (inflight two_requests) = [0, 1]
   \<and> pool (settle upper_half_fails 1 two_requests) = [1]
   \<and> unhandled (settle upper_half_fails 1 two_requests) = [RpcError ''connection reset'']
   \<and> getTableAll upper_half_fails lifo 0 10 [5] = Some (Inr [1, 2])"
    by code_simp
  with getTableAll_returns [of remote sched lower upper hint] show ?thesis by blast
qed

text \<open>
  C6. Claimed: a truncated query over \<open>[l, u]\<close> is bisected at
  \<open>l + floor((u - l) / 2)\<close>, and two sub-queries are issued, over \<open>[l, mid - 1]\<close>
  and \<open>[mid, u]\<close>. The code rounds the half with \<^verbatim>\<open>decimalPlaces(0)\<close>, which rounds
  a tie up: for \<open>[0, 5]\<close> the sub-queries are \<open>[0, 2]\<close> and \<open>[3, 5]\<close>, not \<open>[0, 1]\<close>
  and \<open>[2, 5]\<close>; and for \<open>[0, 1]\<close> none is issued, both halves being single keys.
\<close>

theorem bisect_floor_counterexample:
  "map snd (inflight (on_fulfilled 0 0 5 (Some \<lparr>rows = Some ([] :: int list), has_more = True\<rparr>) scan0))
     \<noteq> [(0, (0 + (5 - 0) div 2) - 1), (0 + (5 - 0) div 2, 5)]
   \<and> map snd (inflight (on_fulfilled 0 0 5 (Some \<lparr>rows = Some ([] :: int list), has_more = True\<rparr>) scan0))
       = [(0, 2), (3, 5)]
   \<and> inflight (on_fulfilled 0 0 1 (Some \<lparr>rows = Some ([] :: int list), has_more = True\<rparr>) scan0) = []"
  by code_simp

text \<open>
  C6, amended: for \<open>l < u\<close>, a truncated answer to the query over \<open>[l, u]\<close> is
  bisected at \<open>mid = l + ceiling((u - l) / 2)\<close>, written \<open>l + (u - l + 1) div 2\<close>;
  the sub-query over \<open>[l, mid - 1]\<close> is issued when \<open>l < mid - 1\<close>, the one over
  \<open>[mid, u]\<close> when \<open>mid < u\<close>, in this order, and nothing else is issued.
\<close>

theorem bisect_half_up:
  assumes "l < u" and "has_more res"
  shows "map snd (inflight (on_fulfilled p l u (Some res) st)) =
     map snd (inflight st)
       @ (if l < l + (u - l + 1) div 2 - 1 then [(l, l + (u - l + 1) div 2 - 1)] else [])
       @ (if l + (u - l + 1) div 2 < u then [(l + (u - l + 1) div 2, u)] else [])"
  using assms by (simp add: on_fulfilled_def Let_def Require_def midpoint_nonneg)

theorem bisect_half_up_witness:
  "map snd (inflight (on_fulfilled 0 0 5 (Some \<lparr>rows = Some ([] :: int list), has_more = True\<rparr>) scan0))
     = [(0, 2), (3, 5)]"
  using bisect_half_up [of 0 5 "\<lparr>rows = Some ([] :: int list), has_more = True\<rparr>" 0 scan0]
  by (simp add: scan0_def)

text \<open>
  C7. Claimed: a scan with ascending hints inside the range returns the same
  set of rows as the scan without hints. Hints move the points of bisection,
  and with them the keys that the defect of C1 loses. For every order in which
  the requests settle, over keys 0 to 9 scanned from 0 to 10: with an inclusive
  upper bound and a cap of 2 rows the scan loses the keys 2 and 5 without hints
  and the keys 0 and 3 with the hint 5; with an exclusive upper bound and a cap
  of 4 rows it loses 4 and 7 without hints, 2 and 7 with the hint 5.
\<close>

theorem getTableAll_hints_change_result:
  "(\<exists>found. getTableAll (fetchRange True 2 id [0, 1, 2, 3, 4, 5, 6, 7, 8, 9]) sched 0 10 []
        = Some (Inr found) \<and> set found = {0, 1, 3, 4, 6, 7, 8, 9})
   \<and> (\<exists>found. getTableAll (fetchRange True 2 id [0, 1, 2, 3, 4, 5, 6, 7, 8, 9]) sched' 0 10 [5]
        = Some (Inr found) \<and> set found = {1, 2, 4, 5, 6, 7, 8, 9})
   \<and> (\<exists>found. getTableAll (fetchRange False 4 id [0, 1, 2, 3, 4, 5, 6, 7, 8, 9]) sched 0 10 []
        = Some (Inr found) \<and> set found = {0, 1, 2, 3, 5, 6, 8, 9})
   \<and> (\<exists>found. getTableAll (fetchRange False 4 id [0, 1, 2, 3, 4, 5, 6, 7, 8, 9]) sched' 0 10 [5]
        = Some (Inr found) \<and> set found = {0, 1, 3, 4, 5, 6, 8, 9})"
proof -
  let ?keys = "[0, 1, 2, 3, 4, 5, 6, 7, 8, 9] :: int list"
  have "collect_hints (fetchRange True 2 id ?keys) 0 ([] @ [10]) = [0, 1, 3, 4, 6, 7, 8, 9]"
    by code_simp
  from scan_result [OF this, of sched]
  have a: "\<exists>found. getTableAll (fetchRange True 2 id ?keys) sched 0 10 []
        = Some (Inr found) \<and> set found = {0, 1, 3, 4, 6, 7, 8, 9}"
    by auto
  have "collect_hints (fetchRange True 2 id ?keys) 0 ([5] @ [10]) = [1, 2, 4, 5, 6, 7, 8, 9]"
    by code_simp
  from scan_result [OF this, of sched']
  have b: "\<exists>found. getTableAll (fetchRange True 2 id ?keys) sched' 0 10 [5]
        = Some (Inr found) \<and> set found = {1, 2, 4, 5, 6, 7, 8, 9}"
    by auto
  have "collect_hints (fetchRange False 4 id ?keys) 0 ([] @ [10]) = [0, 1, 2, 3, 5, 6, 8, 9]"
    by code_simp
  from scan_result [OF this, of sched]
  have c: "\<exists>found. getTableAll (fetchRange False 4 id ?keys) sched 0 10 []
        = Some (Inr found) \<and> set found = {0, 1, 2, 3, 5, 6, 8, 9}"
    by auto
  have "collect_hints (fetchRange False 4 id ?keys) 0 ([5] @ [10]) = [0, 1, 3, 4, 5, 6, 8, 9]"
    by code_simp
  from scan_result [OF this, of sched']
  have d: "\<exists>found. getTableAll (fetchRange False 4 id ?keys) sched' 0 10 [5]
        = Some (Inr found) \<and> set found = {0, 1, 3, 4, 5, 6, 8, 9}"
    by auto
  from a b c d show ?thesis by blast
qed

text \<open>
  C10. Claimed: on a truncated page whose first and last row carry the
  primary-key field with a falsy value, \<^verbatim>\<open>checkTableMore\<close> throws the cursor-key
  error. The error path first awaits \<^verbatim>\<open>this.getAbi(code)\<close> for its log line: when
  that call fails, its error is the one thrown. Here the first page has the
  keys 0 to 4, the key 0 is falsy, and the call ends with the error of \<^verbatim>\<open>getAbi\<close>.
\<close>

theorem checkTableMore_getAbi_error_counterexample:
  "checkTableMore (pagedTable 5 ''id'' (rows_from 0 20)) (Rejected (RpcError ''abi'')) ''id'' 7
       (JNum 0) (JNum (- 1))
     = Some (Inl (RpcError ''abi''))
   \<and> RpcError ''abi'' \<noteq> CheckMoreError ''id''
   \<and> pagedTable 5 ''id'' (rows_from 0 20) 7 (JNum 0) (JNum (- 1))
     = Resolved (Some \<lparr>rows = Some (rows_from 0 5), has_more = True\<rparr>)
   \<and> map_of (hd (rows_from 0 5)) ''id'' = Some (JNum 0)
   \<and> map_of (last (rows_from 0 5)) ''id'' = Some (JNum 4)"
  by code_simp

text \<open>
  C10, amended: on a page that \<^verbatim>\<open>checkTableMore\<close> continues from (\<^verbatim>\<open>more\<close> set, and
  the limit not positive or not reached), a falsy primary-key value on the
  first or the last row, though the field is there, ends the call without a
  further request: with the cursor-key error when the awaited \<^verbatim>\<open>getAbi\<close>
  succeeds, with the error of \<^verbatim>\<open>getAbi\<close> when it fails.
\<close>

theorem checkTableMore_falsy_cursor:
  assumes "remote limit lb ub = Resolved (Some result)"
    and "rows result = Some rs" and "rs \<noteq> []"
    and "has_more result" and "limit \<le> 0 \<or> int (length rs) < limit"
    and "\<not> truthy (field (hd rs) pk) \<or> \<not> truthy (field (last rs) pk)"
  shows "checkTableMore remote getAbi pk limit lb ub =
     Some (Inl (case getAbi of Rejected err \<Rightarrow> err | Resolved abi \<Rightarrow> CheckMoreError pk))"
  using assms by (subst checkTableMore.simps) (auto split: response.splits)

theorem checkTableMore_falsy_cursor_witness:
  "checkTableMore (pagedTable 5 ''id'' (rows_from 0 20)) (Resolved ()) ''id'' 7 (JNum 0) (JNum (- 1))
     = Some (Inl (CheckMoreError ''id''))
   \<and> map_of (hd (rows_from 0 5)) ''id'' = Some (JNum 0)
   \<and> map_of (last (rows_from 0 5)) ''id'' = Some (JNum 4)"
proof -
  have page: "pagedTable 5 ''id'' (rows_from 0 20) 7 (JNum 0) (JNum (- 1))
      = Resolved (Some \<lparr>rows = Some (rows_from 0 5), has_more = True\<rparr>)"
    by code_simp
  have ne: "rows_from 0 5 \<noteq> []" by code_simp
  have falsy: "\<not> truthy (field (hd (rows_from 0 5)) ''id'')
      \<or> \<not> truthy (field (last (rows_from 0 5)) ''id'')"
    by code_simp
  have fields: "map_of (hd (rows_from 0 5)) ''id'' = Some (JNum 0)
      \<and> map_of (last (rows_from 0 5)) ''id'' = Some (JNum 4)"
    by code_simp
  have len: "(7::int) \<le> 0 \<or> int (length (rows_from 0 5)) < 7" by code_simp
  from checkTableMore_falsy_cursor [of "pagedTable 5 ''id'' (rows_from 0 20)" 7 "JNum 0" "JNum (- 1)"
      "\<lparr>rows = Some (rows_from 0 5), has_more = True\<rparr>" "rows_from 0 5" "''id''" "Resolved ()"]
    page ne len falsy fields show ?thesis by simp
qed




text \<open>
  C5. Over a log in ascending sequence order, read through a remote that
  answers a request from the actions of its window, at most \<open>cap\<close> a time, and
  times out on finitely many requests, \<^verbatim>\<open>getActions(startPos, offset)\<close> returns the
  actions numbered \<open>startPos\<close> to \<open>startPos + offset\<close>, in order. The steps of the
  loop, for any remote: a page whose last sequence number is at least the
  cursor and below \<open>endPos\<close> is appended and the cursor moves to that number plus
  one; a page whose last number reaches \<open>endPos\<close> is appended and ends the loop;
  an empty page, or one whose last number is below the cursor, ends the loop
  without being appended.
\<close>

theorem getActions_covers_window:
  "(sorted_wrt (<) (map account_action_seq entries) \<and> 0 < cap \<and> finite down \<longrightarrow>
      getActions (fetchSequenceWindow down cap entries) startPos offset
        = Some (Inr (window entries startPos offset)))
   \<and> (remote t pos (endPos - pos) = Resolved (Some acts)
        \<and> acts \<noteq> [] \<and> pos \<le> account_action_seq (last acts)
        \<and> account_action_seq (last acts) < endPos \<longrightarrow>
      getActions_loop remote t pos endPos actions
        = getActions_loop remote (t + 1) (account_action_seq (last acts) + 1) endPos (actions @ acts))
   \<and> (remote t pos (endPos - pos) = Resolved (Some acts)
        \<and> acts \<noteq> [] \<and> pos \<le> account_action_seq (last acts)
        \<and> endPos \<le> account_action_seq (last acts) \<longrightarrow>
      getActions_loop remote t pos endPos actions = Some (Inr (actions @ acts)))
   \<and> (remote t pos (endPos - pos) = Resolved (Some acts)
        \<and> (acts = [] \<or> account_action_seq (last acts) < pos) \<longrightarrow>
      getActions_loop remote t pos endPos actions = Some (Inr actions))"
proof (intro conjI impI)
  assume "sorted_wrt (<) (map account_action_seq entries) \<and> 0 < cap \<and> finite down"
  then show "getActions (fetchSequenceWindow down cap entries) startPos offset
      = Some (Inr (window entries startPos offset))"
    using loop_covers [of entries cap down 0 startPos "startPos + offset" "[]"]
    by (simp add: getActions_def)
next
  assume "remote t pos (endPos - pos) = Resolved (Some acts)
        \<and> acts \<noteq> [] \<and> pos \<le> account_action_seq (last acts)
        \<and> account_action_seq (last acts) < endPos"
  then show "getActions_loop remote t pos endPos actions
        = getActions_loop remote (t + 1) (account_action_seq (last acts) + 1) endPos (actions @ acts)"
    by (subst getActions_loop.simps) (simp add: Let_def)
next
  assume "remote t pos (endPos - pos) = Resolved (Some acts)
        \<and> acts \<noteq> [] \<and> pos \<le> account_action_seq (last acts)
        \<and> endPos \<le> account_action_seq (last acts)"
  then show "getActions_loop remote t pos endPos actions = Some (Inr (actions @ acts))"
    by (subst getActions_loop.simps) (simp add: Let_def)
next
  assume "remote t pos (endPos - pos) = Resolved (Some acts)
        \<and> (acts = [] \<or> account_action_seq (last acts) < pos)"
  then show "getActions_loop remote t pos endPos actions = Some (Inr actions)"
    by (subst getActions_loop.simps) (auto simp: Let_def)
qed

theorem getActions_covers_window_witness:
  "getActions (fetchSequenceWindow {0, 2} 3 (log_upto 25)) 5 9
     = Some (Inr (window (log_upto 25) 5 9))
   \<and> map account_action_seq (window (log_upto 25) 5 9) = [5, 6, 7, 8, 9, 10, 11, 12, 13, 14]
   \<and> getActions_loop (fetchSequenceWindow {} 3 (log_upto 25)) 0 5 14 []
       = getActions_loop (fetchSequenceWindow {} 3 (log_upto 25)) 1 8 14 (take 3 (window (log_upto 25) 5 9))
   \<and> getActions_loop (fetchSequenceWindow {} 3 (log_upto 25)) 3 14 14 (log_upto 2)
       = Some (Inr (log_upto 2 @ window (log_upto 25) 14 0))
   \<and> getActions_loop (fetchSequenceWindow {} 3 (log_upto 25)) 0 25 30 (log_upto 2)
       = Some (Inr (log_upto 2))"
proof -
  let ?R = "fetchSequenceWindow {} 3 (log_upto 25)"
  have "sorted_wrt (<) (map account_action_seq (log_upto 25))" by code_simp
  moreover have "(0::nat) < 3" and "finite {0::nat, 2}" by simp_all
  ultimately have a: "getActions (fetchSequenceWindow {0, 2} 3 (log_upto 25)) 5 9
      = Some (Inr (window (log_upto 25) 5 9))"
    using getActions_covers_window [of "log_upto 25" 3 "{0, 2}" 5 9] by blast
  have b: "map account_action_seq (window (log_upto 25) 5 9)
      = [5, 6, 7, 8, 9, 10, 11, 12, 13, 14]"
    by code_simp
  have "?R 0 5 (14 - 5) = Resolved (Some (take 3 (window (log_upto 25) 5 9)))
      \<and> take 3 (window (log_upto 25) 5 9) \<noteq> []
      \<and> 5 \<le> account_action_seq (last (take 3 (window (log_upto 25) 5 9)))
      \<and> account_action_seq (last (take 3 (window (log_upto 25) 5 9))) < 14
      \<and> account_action_seq (last (take 3 (window (log_upto 25) 5 9))) + 1 = 8"
    by code_simp
  with getActions_covers_window [of _ _ _ _ _ ?R 0 5 14 "take 3 (window (log_upto 25) 5 9)" "[]"]
  have c: "getActions_loop ?R 0 5 14 []
      = getActions_loop ?R 1 8 14 (take 3 (window (log_upto 25) 5 9))"
    by simp
  have "?R 3 14 (14 - 14) = Resolved (Some (window (log_upto 25) 14 0))
      \<and> window (log_upto 25) 14 0 \<noteq> []
      \<and> 14 \<le> account_action_seq (last (window (log_upto 25) 14 0))"
    by code_simp
  with getActions_covers_window [of _ _ _ _ _ ?R 3 14 14 "window (log_upto 25) 14 0" "log_upto 2"]
  have d: "getActions_loop ?R 3 14 14 (log_upto 2)
      = Some (Inr (log_upto 2 @ window (log_upto 25) 14 0))"
    by simp
  have "?R 0 25 (30 - 25) = Resolved (Some [])" by code_simp
  with getActions_covers_window [of _ _ _ _ _ ?R 0 25 30 "[]" "log_upto 2"]
  have e: "getActions_loop ?R 0 25 30 (log_upto 2) = Some (Inr (log_upto 2))"
    by simp
  from a b c d e show ?thesis by blast
qed

text \<open>
  C8. Claimed: \<^verbatim>\<open>getActions\<close> retries the same request when it times out, and
  only then. The \<^verbatim>\<open>catch\<close> clause around the awaited request takes every
  rejection: a request refused by the remote, which is no timeout, is retried
  just the same, and the call returns the rows of the second answer.
\<close>

theorem getActions_retries_only_timeouts_counterexample:
  "refused_once 0 0 0 = Rejected (RpcError ''connection refused'')
   \<and> RpcError ''connection refused'' \<noteq> Timeout
   \<and> getActions refused_once 0 0 = Some (Inr [\<lparr>account_action_seq = 0, action_trace = ''transfer''\<rparr>])"
  by code_simp

text \<open>
  C8, amended: \<^verbatim>\<open>getActions\<close> retries the same request (same position, same
  offset, rows collected so far unchanged) for as long as the awaited request
  is rejected, by a timeout or by any other failure: after \<open>n\<close> rejections in a
  row the call stands where it stood; if every request is rejected it never
  returns, so no rejection reaches the caller. A response without an
  \<^verbatim>\<open>actions\<close> field is not retried: it is raised to the caller at once.
\<close>

theorem getActions_retries_every_rejection:
  "((\<forall>k<n. \<exists>ex. remote (t + k) pos (endPos - pos) = Rejected ex) \<longrightarrow>
      getActions_loop remote t pos endPos actions = getActions_loop remote (t + n) pos endPos actions)
   \<and> ((\<forall>k. \<exists>ex. remote (t + k) pos (endPos - pos) = Rejected ex) \<longrightarrow>
      getActions_loop remote t pos endPos actions = None)
   \<and> (remote t pos (endPos - pos) = Resolved None \<longrightarrow>
      getActions_loop remote t pos endPos actions = Some (Inl GetActionsFailed))"
proof (intro conjI impI)
  assume "\<forall>k<n. \<exists>ex. remote (t + k) pos (endPos - pos) = Rejected ex"
  then show "getActions_loop remote t pos endPos actions
      = getActions_loop remote (t + n) pos endPos actions"
    by (intro loop_retries) simp
next
  assume "\<forall>k. \<exists>ex. remote (t + k) pos (endPos - pos) = Rejected ex"
  then show "getActions_loop remote t pos endPos actions = None"
    by (intro loop_never_returns) simp
next
  assume "remote t pos (endPos - pos) = Resolved None"
  then show "getActions_loop remote t pos endPos actions = Some (Inl GetActionsFailed)"
    by (subst getActions_loop.simps) simp
qed

theorem getActions_retries_every_rejection_witness:
  "getActions (fetchSequenceWindow {0, 1} 10 (log_upto 3)) 0 2 = Some (Inr (log_upto 3))
   \<and> getActions (\<lambda>t pos offset. Rejected Timeout) 0 2 = None
   \<and> getActions (\<lambda>t pos offset. Resolved None) 0 2 = Some (Inl GetActionsFailed)"
proof -
  let ?R = "fetchSequenceWindow {0, 1} 10 (log_upto 3)"
  have "\<forall>k<2. \<exists>ex. ?R (0 + k) 0 (2 - 0) = Rejected ex"
    by (auto simp: fetchSequenceWindow_def less_Suc_eq numeral_2_eq_2)
  with getActions_retries_every_rejection [of 2 ?R 0 0 2 "[]"]
  have "getActions_loop ?R 0 0 2 [] = getActions_loop ?R (0 + 2) 0 2 []" by blast
  moreover have "getActions_loop ?R (0 + 2) 0 2 [] = Some (Inr (log_upto 3))" by code_simp
  ultimately have a: "getActions ?R 0 2 = Some (Inr (log_upto 3))"
    by (simp add: getActions_def)
  have b: "getActions (\<lambda>t pos offset. Rejected Timeout) 0 2 = None"
    using getActions_retries_every_rejection [of 0 "\<lambda>t pos offset. Rejected Timeout" 0 0 2 "[]"]
    by (simp add: getActions_def)
  have c: "getActions (\<lambda>t pos offset. Resolved None) 0 2 = Some (Inl GetActionsFailed)"
    using getActions_retries_every_rejection [of 0 "\<lambda>t pos offset. Resolved None" 0 0 2 "[]"]
    by (simp add: getActions_def)
  from a b c show ?thesis by blast
qed

text \<open>
  C2. Claimed: once a page of a batch is short (fewer rows than the page size),
  no page after it is delivered, and the scan stops. Empty results are
  filtered out before the batch is walked: in the batch of pages 2, 4 and 6
  the page at 4 is empty, hence short, the page at 6 after it is delivered,
  and the scan goes on (it has not returned after this batch).
\<close>

theorem getAllActionsBatch_empty_page_counterexample:
  "getAllActionsBatch 4 late_rows True 0 2 3
     = ([0, 2, 4, 6], [(0, [''a0'', ''a1'']), (2, [''a2'', ''a3'']), (6, [''a6'', ''a7''])], None)
   \<and> int (length (late_rows 4)) < 2"
  by code_simp

text \<open>
  C2, amended: for a positive page size, \<^verbatim>\<open>getAllActionsBatch\<close> calls \<^verbatim>\<open>cbReceive\<close>
  with pages in strictly increasing start position, each the non-empty answer
  for its position (an empty page is never delivered); every delivered page
  that is followed by another delivered page is full; when the last delivered
  page is short the call has returned. The positions requested are the
  multiples of the page size from the start position on, in order, and the
  pages delivered are exactly the non-empty pages fetched, in that order, up
  to and including the first short one. So once a non-empty short page has
  been fetched the call has returned, a short page is the last one delivered,
  and no page at a later position is delivered. Once the call has returned
  nothing more is requested or delivered.
\<close>

theorem getAllActionsBatch_delivery_order:
  assumes "0 < count"
    and "getAllActionsBatch n req True startPos count concurrent = (asked, trace, returned)"
  shows "sorted_wrt (<) (map fst trace)
     \<and> (\<forall>page\<in>set trace. snd page = req (fst page) \<and> snd page \<noteq> [])
     \<and> (\<forall>k. Suc k < length trace \<longrightarrow> count \<le> int (length (snd (trace ! k))))
     \<and> (trace \<noteq> [] \<and> int (length (snd (last trace))) < count \<longrightarrow> returned = Some True)
     \<and> asked = map (\<lambda>k. startPos + int k * count) [0..<length asked]
     \<and> trace = upto_first_short count (fetched req asked)
     \<and> (\<forall>pos\<in>set asked. req pos \<noteq> [] \<and> int (length (req pos)) < count \<longrightarrow>
           returned = Some True
           \<and> trace \<noteq> [] \<and> int (length (snd (last trace))) < count
           \<and> (\<forall>page\<in>set trace. fst page \<le> pos))
     \<and> (returned = Some True \<longrightarrow>
           getAllActionsBatch (n + k) req True startPos count concurrent = (asked, trace, returned))"
proof -
  let ?st = "passes n req startPos count concurrent batch0"
  from assms(2) have asked: "asked = requested ?st" and trace: "trace = delivered ?st"
    and returned: "returned = (if finished ?st then Some True else None)"
    by (simp_all add: getAllActionsBatch_def Let_def)
  have inv: "batch_inv req startPos count ?st"
    using assms(1) batch0_inv by (rule passes_inv)
  then have "sorted_wrt (<) (map fst trace @ (if finished ?st then [] else ranges ?st))"
    unfolding batch_inv_def trace by blast
  then have a: "sorted_wrt (<) (map fst trace)" by (simp add: sorted_wrt_append split: if_splits)
  from inv have b: "\<forall>page\<in>set trace. snd page = req (fst page) \<and> snd page \<noteq> []"
    unfolding batch_inv_def trace served_def by blast
  from inv have c: "\<forall>k. Suc k < length trace \<longrightarrow> count \<le> int (length (snd (trace ! k)))"
    unfolding batch_inv_def trace full_def by blast
  have d: "trace \<noteq> [] \<and> int (length (snd (last trace))) < count \<longrightarrow> returned = Some True"
  proof
    assume short: "trace \<noteq> [] \<and> int (length (snd (last trace))) < count"
    have "finished ?st"
    proof (rule ccontr)
      assume "\<not> finished ?st"
      with inv have "\<forall>page\<in>set trace. full count page"
        unfolding batch_inv_def trace by blast
      moreover from short have "last trace \<in> set trace" by simp
      ultimately have "full count (last trace)" by blast
      with short show False by (simp add: full_def)
    qed
    then show "returned = Some True" by (simp add: returned)
  qed
  have tr: "batch_trace req startPos count ?st"
    using batch0_trace by (rule passes_trace)
  have seq: "requested ?st @ (if finished ?st then [] else ranges ?st)
      = map (\<lambda>k. startPos + int k * count)
          [0..<(if finished ?st then length (requested ?st) else i ?st)]"
    using tr unfolding batch_trace_def by (simp split: if_splits)
  have e: "asked = map (\<lambda>k. startPos + int k * count) [0..<length asked]"
  proof -
    from seq have "take (length asked) (requested ?st @ (if finished ?st then [] else ranges ?st))
        = take (length asked) (map (\<lambda>k. startPos + int k * count)
          [0..<(if finished ?st then length (requested ?st) else i ?st)])"
      by simp
    moreover from seq have "length (requested ?st @ (if finished ?st then [] else ranges ?st))
        = (if finished ?st then length (requested ?st) else i ?st)"
      by (simp only: length_map length_upt diff_zero)
    then have "length asked \<le> (if finished ?st then length (requested ?st) else i ?st)"
      by (simp add: asked split: if_splits)
    ultimately show ?thesis
      by (simp add: asked take_map min_def split: if_splits)
  qed
  from tr have f: "trace = upto_first_short count (fetched req asked)"
    unfolding batch_trace_def trace asked by blast
  have g: "\<forall>pos\<in>set asked. req pos \<noteq> [] \<and> int (length (req pos)) < count \<longrightarrow>
           returned = Some True
           \<and> trace \<noteq> [] \<and> int (length (snd (last trace))) < count
           \<and> (\<forall>page\<in>set trace. fst page \<le> pos)"
  proof (intro ballI impI)
    fix pos assume pos: "pos \<in> set asked" and sh: "req pos \<noteq> [] \<and> int (length (req pos)) < count"
    have "sorted_wrt (<) asked"
      by (subst e) (rule positions_ascend [OF assms(1)])
    then have srt: "sorted_wrt (<) (map fst (fetched req asked))"
      by (simp add: fst_fetched sorted_wrt_filter)
    have mem: "(pos, req pos) \<in> set (fetched req asked)"
      using pos sh by (simp add: fetched_def)
    have short: "\<not> full count (pos, req pos)" using sh by (simp add: full_def)
    note fs = first_short_page [OF srt mem short]
    from fs(1) have ne: "trace \<noteq> []" by (simp add: f)
    from fs(2) have last: "int (length (snd (last trace))) < count" by (simp add: f full_def)
    from fs(3) have le: "\<forall>page\<in>set trace. fst page \<le> pos" by (simp add: f)
    from d ne last have "returned = Some True" by blast
    with ne last le show "returned = Some True
           \<and> trace \<noteq> [] \<and> int (length (snd (last trace))) < count
           \<and> (\<forall>page\<in>set trace. fst page \<le> pos)" by blast
  qed
  have h: "returned = Some True \<longrightarrow>
           getAllActionsBatch (n + k) req True startPos count concurrent = (asked, trace, returned)"
  proof
    assume "returned = Some True"
    then have fin: "finished ?st" by (simp add: returned split: if_splits)
    have "passes (n + k) req startPos count concurrent batch0 = ?st"
      unfolding passes_add using fin by (rule passes_finished)
    then show "getAllActionsBatch (n + k) req True startPos count concurrent = (asked, trace, returned)"
      by (simp add: getAllActionsBatch_def Let_def asked trace returned)
  qed
  from a b c d e f g h show ?thesis by blast
qed

theorem getAllActionsBatch_delivery_order_witness:
  "getAllActionsBatch 10 log25 True 0 10 2
     = ([0, 10, 20], [(0 :: int, log25 0), (10, log25 10), (20, log25 20)], Some True)
   \<and> sorted_wrt (<) (map fst [(0 :: int, log25 0), (10, log25 10), (20, log25 20)])
   \<and> 10 \<le> int (length (log25 0)) \<and> 10 \<le> int (length (log25 10))
   \<and> int (length (log25 20)) < 10
   \<and> [(0 :: int, log25 0), (10, log25 10), (20, log25 20)]
       = upto_first_short 10 (fetched log25 [0, 10, 20])
   \<and> getAllActionsBatch (10 + 5) log25 True 0 10 2
     = ([0, 10, 20], [(0 :: int, log25 0), (10, log25 10), (20, log25 20)], Some True)"
proof -
  let ?trace = "[(0 :: int, log25 0), (10, log25 10), (20, log25 20)]"
  have run: "getAllActionsBatch 10 log25 True 0 10 2 = ([0, 10, 20], ?trace, Some True)"
    by code_simp
  have "(0::int) < 10" by simp
  note order = getAllActionsBatch_delivery_order [OF this run, of 5]
  from order have a: "sorted_wrt (<) (map fst ?trace)" by blast
  from order have "\<forall>k. Suc k < length ?trace \<longrightarrow> 10 \<le> int (length (snd (?trace ! k)))"
    by blast
  from this [rule_format, of 0] this [rule_format, of 1]
  have b: "10 \<le> int (length (log25 0)) \<and> 10 \<le> int (length (log25 10))" by simp
  have c: "int (length (log25 20)) < 10" by code_simp
  from order have d: "?trace = upto_first_short 10 (fetched log25 [0, 10, 20])" by blast
  from order have e: "getAllActionsBatch (10 + 5) log25 True 0 10 2 = ([0, 10, 20], ?trace, Some True)"
    by blast
  from run a b c d e show ?thesis by blast
qed

end
